theory Spec2Isabelle
  imports Main
begin

section \<open>Data model\<close>

text \<open>
  The four phases of \<^verbatim>\<open>LoaderService\<close> (the \<^verbatim>\<open>type\<close> of a queue item selects the map
  of \<^verbatim>\<open>LoaderServiceQueueModel\<close> it is stored in).
\<close>

datatype phase = FrameworkBeforeBoot | Before | After | FrameworkAfterBoot

text \<open>
  \<^verbatim>\<open>target: string | constructor<any>\<close>: an injection token that is a string, or a class
  (of which only the \<^verbatim>\<open>name\<close> is read).
\<close>

datatype target = Token string | Class string

text \<open>\<^verbatim>\<open>LoaderServiceQueueItemModel\<close>.\<close>

record queue_item =
  itype :: phase
  itarget :: target
  methodName :: string
  doneCheckTimeout :: nat

text \<open>\<^verbatim>\<open>AutoloadOptionsInterface\<close>: both fields are optional.\<close>

record autoload_options =
  opt_methodName :: "string option"
  opt_doneCheckTimeout :: "nat option"

text \<open>
  What a method of a resolved instance does with the completion callback it receives: it
  calls it before it returns (as \<^verbatim>\<open>BaseEventService.autoStart\<close> does), or it keeps it
  and returns (the callback then arrives later, as an event of the host).
\<close>

datatype behaviour = CallsDoneSync | Defers

text \<open>Messages written through \<^verbatim>\<open>UtilsService.log\<close>, with the interpolated values.\<close>

datatype log_entry =
    MissingMethodLog string string
  | ForgottenDoneLog string string
  | IncreaseTimeoutLog nat
  | StartBootingLog

text \<open>
  The tasks handed to \<^verbatim>\<open>UtilsService.nextTick\<close> and to \<^verbatim>\<open>UtilsService.setTimeout\<close>.
\<close>

datatype task = ProcessPhase phase | FinishUp target | FireFinish

datatype timer_task = WarmUp | Watchdog string string nat

text \<open>
  The trace of what the service does to its collaborators, in order: log lines, calls of
  the host's cancellation primitives, invocations of instance methods (with the key and the
  watchdog handle bound into the completion callback) and of \<^verbatim>\<open>done\<close> callbacks (with
  the arguments passed). \<open>DoneCalled\<close> marks an entry into \<^verbatim>\<open>doneCallback\<close> and
  \<open>Drained\<close> the delivery of a count subject's completion to the subscriber that
  \<^verbatim>\<open>bootstrap\<close> attached.
\<close>

datatype obs =
    Log log_entry
  | ClearIntervalCall nat
  | ClearTimeoutCall nat
  | Invoke phase string nat
  | DoneCalled phase "string option" "nat option"
  | Drained phase
  | CbInvoked nat "bool list"

text \<open>
  The collaborators that are not part of the service: the dependency container
  (\<open>resolveH tgt m\<close> is what method \<open>m\<close> of the instance resolved for \<open>tgt\<close>
  does, \<open>None\<close> when the instance has no such method) and the host's
  \<^verbatim>\<open>alt.clearInterval\<close>, as a function on the armed one-shot timers.
\<close>

record host =
  resolveH :: "target \<Rightarrow> string \<Rightarrow> behaviour option"
  clearIntervalH :: "nat \<Rightarrow> (nat \<times> timer_task) list \<Rightarrow> (nat \<times> timer_task) list"

text \<open>
  The state of one \<^verbatim>\<open>LoaderService\<close> together with the host's timers and tick queue.
  A subject is its \<^verbatim>\<open>isStopped\<close> flag and its observers. A count subject has two kinds
  of observers: the \<^verbatim>\<open>takeLast(1)\<close> subscriber of \<^verbatim>\<open>bootstrap\<close> (\<open>tl_sub\<close>, the
  task it passes to \<^verbatim>\<open>nextTick\<close>, and \<open>tl_buf\<close>, its buffer) and the
  \<^verbatim>\<open>filter(size !== 0)\<close> subscribers of \<^verbatim>\<open>processQueue\<close> (\<open>proc_subs\<close>, how many).
  The starting subject has the one subscriber of \<^verbatim>\<open>bootstrap\<close>; the observers of the
  finish subject are the callbacks given to \<^verbatim>\<open>done\<close>, in subscription order.
  \<open>ticks\<close> is the host's queue of \<^verbatim>\<open>nextTick\<close> tasks, \<open>timers\<close> its armed one-shot
  timers by handle, \<open>hooks\<close> the targets with a pending
  \<^verbatim>\<open>afterResolution(..., { frequency: 'Once' })\<close> callback of \<^verbatim>\<open>finishUpBooting\<close>.
\<close>

text \<open>
  Modelled from the spec: \<^verbatim>\<open>LoaderServiceQueueModel\<close> is not among the sources; its four
  maps are \<^verbatim>\<open>Map<string, LoaderServiceQueueItemModel>\<close> (insertion ordered, here an
  association list with distinct keys) and its four counts are plain \<^verbatim>\<open>Subject<number>\<close>,
  as the signatures of \<^verbatim>\<open>doneCallback\<close> and \<^verbatim>\<open>processQueue\<close> type them.
\<close>

record state =
  metadata :: "queue_item list"
  queue :: "phase \<Rightarrow> (string \<times> queue_item) list"
  stopped :: "phase \<Rightarrow> bool"
  tl_sub :: "phase \<Rightarrow> task option"
  tl_buf :: "phase \<Rightarrow> nat option"
  proc_subs :: "phase \<Rightarrow> nat"
  start_stopped :: bool
  start_sub :: bool
  start_buf :: "bool option"
  fin_stopped :: bool
  fin_subs :: "nat list"
  isBootstrapped :: bool
  ticks :: "task list"
  timers :: "(nat \<times> timer_task) list"
  nextTimerId :: nat
  hooks :: "target list"
  trace :: "obs list"

section \<open>Strings and maps\<close>

text \<open>\<^verbatim>\<open>String.prototype.split('_')\<close>.\<close>

fun js_split :: "string \<Rightarrow> string list" where
  "js_split [] = [[]]"
| "js_split (c # cs) =
     (if c = CHR ''_'' then [] # js_split cs
      else (case js_split cs of [] \<Rightarrow> [[c]] | w # ws \<Rightarrow> (c # w) # ws))"

text \<open>
  An element of a destructured array as a template literal prints it: a missing element
  is \<^verbatim>\<open>undefined\<close>.
\<close>

definition part :: "nat \<Rightarrow> string list \<Rightarrow> string" where
  "part i ps = (if i < length ps then ps ! i else ''undefined'')"

text \<open>\<^verbatim>\<open>Map.prototype.set\<close>: an existing key keeps its position.\<close>

fun map_set :: "string \<Rightarrow> 'v \<Rightarrow> (string \<times> 'v) list \<Rightarrow> (string \<times> 'v) list" where
  "map_set k v [] = [(k, v)]"
| "map_set k v ((k', v') # kvs) =
     (if k' = k then (k, v) # kvs else (k', v') # map_set k v kvs)"

text \<open>\<^verbatim>\<open>Map.prototype.delete\<close>.\<close>

definition map_delete :: "string \<Rightarrow> (string \<times> 'v) list \<Rightarrow> (string \<times> 'v) list" where
  "map_delete k kvs = filter (\<lambda>kv. fst kv \<noteq> k) kvs"

text \<open>\<^verbatim>\<open>if (key !== null) property.delete(key)\<close>.\<close>

definition delete_key :: "string option \<Rightarrow> (string \<times> 'v) list \<Rightarrow> (string \<times> 'v) list" where
  "delete_key key kvs = (case key of None \<Rightarrow> kvs | Some k \<Rightarrow> map_delete k kvs)"

section \<open>The Autoload decorator\<close>

text \<open>
  \<^verbatim>\<open>Autoload(type, options)(target)\<close> on the metadata list of the loader service:
  the defaults spread first, the supplied options over them, then the item is appended.
  \<^verbatim>\<open>cast\<close> of \<^verbatim>\<open>JsonEntityModel\<close> (not among the sources) copies fields that already
  have their declared types.
\<close>

definition defaultOptions :: "autoload_options option \<Rightarrow> string \<times> nat" where
  "defaultOptions options =
     (case options of
        None \<Rightarrow> (''autoStart'', 5000)
      | Some opts \<Rightarrow>
          ((case opt_methodName opts of None \<Rightarrow> ''autoStart'' | Some m \<Rightarrow> m),
           (case opt_doneCheckTimeout opts of None \<Rightarrow> 5000 | Some d \<Rightarrow> d)))"

definition Autoload ::
  "phase \<Rightarrow> autoload_options option \<Rightarrow> target \<Rightarrow> queue_item list \<Rightarrow> queue_item list" where
  "Autoload ty options tgt config =
     config @ [\<lparr> itype = ty, itarget = tgt,
                 methodName = fst (defaultOptions options),
                 doneCheckTimeout = snd (defaultOptions options) \<rparr>]"

section \<open>The loader service\<close>

text \<open>\<^verbatim>\<open>UtilsService.clearInterval\<close>.\<close>

definition clearInterval :: "host \<Rightarrow> nat \<Rightarrow> state \<Rightarrow> state" where
  "clearInterval H n s =
     s\<lparr> timers := clearIntervalH H n (timers s),
        trace := trace s @ [ClearIntervalCall n] \<rparr>"

text \<open>\<^verbatim>\<open>UtilsService.clearTimeout\<close>: the armed timer with that handle is dropped.\<close>

definition clearTimeout :: "nat \<Rightarrow> state \<Rightarrow> state" where
  "clearTimeout n s =
     s\<lparr> timers := filter (\<lambda>t. fst t \<noteq> n) (timers s),
        trace := trace s @ [ClearTimeoutCall n] \<rparr>"

text \<open>
  \<^verbatim>\<open>if (doneCheckIntervalId) UtilsService.clearInterval(doneCheckIntervalId)\<close>: a
  handle that is absent or \<open>0\<close> is falsy.
\<close>

definition clearIf :: "host \<Rightarrow> nat option \<Rightarrow> state \<Rightarrow> state" where
  "clearIf H doneCheckIntervalId s =
     (case doneCheckIntervalId of
        None \<Rightarrow> s
      | Some n \<Rightarrow> if n \<noteq> 0 then clearInterval H n s else s)"

text \<open>
  \<^verbatim>\<open>UtilsService.setTimeout\<close>: the host hands out the next handle; the duration is
  not kept, a timer fires when the host says so.
\<close>

definition setTimeout :: "timer_task \<Rightarrow> state \<Rightarrow> state" where
  "setTimeout t s =
     s\<lparr> timers := timers s @ [(nextTimerId s, t)], nextTimerId := nextTimerId s + 1 \<rparr>"

text \<open>
  \<^verbatim>\<open>Subject.complete\<close> on a count subject: a stopped subject ignores it; otherwise
  every observer is completed and dropped, and the \<^verbatim>\<open>takeLast(1)\<close> subscriber emits its
  buffered value, on which \<^verbatim>\<open>bootstrap\<close>'s handler passes its task to \<^verbatim>\<open>nextTick\<close>.
\<close>

definition subjComplete :: "phase \<Rightarrow> state \<Rightarrow> state" where
  "subjComplete p s =
     (if stopped s p then s
      else
        let s1 = s\<lparr> stopped := (stopped s)(p := True),
                    tl_sub := (tl_sub s)(p := None),
                    proc_subs := (proc_subs s)(p := 0) \<rparr>
        in (case tl_sub s p of
              None \<Rightarrow> s1
            | Some t \<Rightarrow>
                (case tl_buf s p of
                   None \<Rightarrow> s1
                 | Some v \<Rightarrow> s1\<lparr> ticks := ticks s1 @ [t],
                                 trace := trace s1 @ [Drained p] \<rparr>)))"

text \<open>
  \<^verbatim>\<open>processQueueItem\<close>, \<^verbatim>\<open>doneCallback\<close> and \<^verbatim>\<open>Subject.next\<close> on a count subject call
  each other: a method that calls its completion callback before it returns re-enters
  \<^verbatim>\<open>doneCallback\<close>, whose \<^verbatim>\<open>propertyCount.next\<close> runs \<^verbatim>\<open>processQueueItem\<close> in every
  \<^verbatim>\<open>filter(size !== 0)\<close> subscriber (\<open>notify\<close>; a subscriber completed meanwhile
  ignores the value).
\<close>

function
  processQueueItem :: "host \<Rightarrow> phase \<Rightarrow> state \<Rightarrow> state" and
  doneCallback :: "host \<Rightarrow> phase \<Rightarrow> string option \<Rightarrow> nat option \<Rightarrow> state \<Rightarrow> state" and
  subjNext :: "host \<Rightarrow> phase \<Rightarrow> nat \<Rightarrow> state \<Rightarrow> state" and
  notify :: "host \<Rightarrow> nat \<Rightarrow> phase \<Rightarrow> state \<Rightarrow> state"
where
  "processQueueItem H p s =
     (case queue s p of
        [] \<Rightarrow> s
      | (nextKey, nextItem) # rest \<Rightarrow>
          (case resolveH H (itarget nextItem) (methodName nextItem) of
             None \<Rightarrow>
               s\<lparr> trace := trace s @
                    [Log (MissingMethodLog (part 0 (js_split nextKey)) (part 1 (js_split nextKey)))] \<rparr>
           | Some b \<Rightarrow>
               (case b of
                  Defers \<Rightarrow>
                    (setTimeout (Watchdog (part 0 (js_split nextKey)) (part 1 (js_split nextKey))
                                   (doneCheckTimeout nextItem)) s)
                      \<lparr> trace := trace s @ [Invoke p nextKey (nextTimerId s)] \<rparr>
                | CallsDoneSync \<Rightarrow>
                    doneCallback H p (Some nextKey) (Some (nextTimerId s))
                      ((setTimeout (Watchdog (part 0 (js_split nextKey)) (part 1 (js_split nextKey))
                                     (doneCheckTimeout nextItem)) s)
                         \<lparr> trace := trace s @ [Invoke p nextKey (nextTimerId s)] \<rparr>))))"
| "doneCallback H p key doneCheckIntervalId s =
     (let s3 = subjNext H p (length (delete_key key (queue s p)))
                 ((clearIf H doneCheckIntervalId
                     (s\<lparr> trace := trace s @ [DoneCalled p key doneCheckIntervalId] \<rparr>))
                    \<lparr> queue := (queue s)(p := delete_key key (queue s p)) \<rparr>)
      in if length (queue s3 p) = 0 then subjComplete p s3 else s3)"
| "subjNext H p v s =
     (if stopped s p then s
      else if v \<noteq> 0
        then notify H (proc_subs s p) p
               (s\<lparr> tl_buf := (tl_buf s)(p := if tl_sub s p = None then tl_buf s p else Some v) \<rparr>)
        else s\<lparr> tl_buf := (tl_buf s)(p := if tl_sub s p = None then tl_buf s p else Some v) \<rparr>)"
| "notify H n p s =
     (case n of
        0 \<Rightarrow> s
      | Suc m \<Rightarrow> if stopped s p then s else notify H m p (processQueueItem H p s))"
  by pat_completeness auto

termination
proof -
  let ?dom = processQueueItem_doneCallback_subjNext_notify_dom
  have cq: "queue (subjComplete p s) = queue s" for p s
    by (simp add: subjComplete_def Let_def split: option.splits)
  have iq: "queue (clearIf H i s) = queue s" for H i s
    by (simp add: clearIf_def clearInterval_def split: option.splits)
  have dl: "length (delete_key key kvs) \<le> length kvs" for key and kvs :: "(string \<times> queue_item) list"
    by (simp add: delete_key_def map_delete_def split: option.splits)
  have shrink:
    "?dom (Inl (Inl (H, p, s))) \<Longrightarrow>
       length (queue (processQueueItem H p s) p) \<le> length (queue s p)"
    "?dom (Inl (Inr (H, p, key, tid, s))) \<Longrightarrow>
       length (queue (doneCallback H p key tid s) p) \<le> length (delete_key key (queue s p))"
    "?dom (Inr (Inl (H, p, v, s))) \<Longrightarrow>
       length (queue (subjNext H p v s) p) \<le> length (queue s p)"
    "?dom (Inr (Inr (H, n, p, s))) \<Longrightarrow>
       length (queue (notify H n p s) p) \<le> length (queue s p)"
    for H p s key tid v n
  proof (induct rule: processQueueItem_doneCallback_subjNext_notify.pinduct)
    case (1 H p s)
    show ?case
    proof (cases "queue s p")
      case Nil
      then show ?thesis using 1(1) by (simp add: processQueueItem.psimps)
    next
      case (Cons kv rest)
      obtain k it where kv: "kv = (k, it)" by (cases kv)
      show ?thesis
      proof (cases "resolveH H (itarget it) (methodName it)")
        case None
        then show ?thesis using 1(1) Cons kv by (simp add: processQueueItem.psimps)
      next
        case (Some b)
        show ?thesis
        proof (cases b)
          case Defers
          then show ?thesis using 1(1) Cons kv Some
            by (simp add: processQueueItem.psimps setTimeout_def)
        next
          case CallsDoneSync
          from 1(2)[OF Cons kv[symmetric] Some CallsDoneSync]
          have "length (queue (processQueueItem H p s) p)
                  \<le> length (delete_key (Some k) (queue s p))"
            using 1(1) Cons kv Some CallsDoneSync
            by (simp add: processQueueItem.psimps setTimeout_def)
          then show ?thesis using dl[of "Some k" "queue s p"] by simp
        qed
      qed
    qed
  next
    case (2 H p key tid s)
    then show ?case
      by (simp add: doneCallback.psimps Let_def cq iq)
  next
    case (3 H p v s)
    then show ?case
      by (simp add: subjNext.psimps)
  next
    case (4 H n p s)
    then show ?case
      by (simp add: notify.psimps split: nat.splits) (metis le_trans)
  qed
  show ?thesis
    apply (relation "inv_image (less_than <*lex*> less_than <*lex*> less_than)
       (\<lambda>x. case x of
          Inl (Inl (H, p, s)) \<Rightarrow> (length (queue s p), 0::nat, 0::nat)
        | Inl (Inr (H, p, key, tid, s)) \<Rightarrow> (length (delete_key key (queue s p)), 3, 0)
        | Inr (Inl (H, p, v, s)) \<Rightarrow> (length (queue s p), 2, 0)
        | Inr (Inr (H, n, p, s)) \<Rightarrow> (length (queue s p), 1, n))")
         apply (auto simp: setTimeout_def iq delete_key_def map_delete_def less_Suc_eq_le
                     dest: shrink(1))
    done
qed

declare processQueueItem.simps [simp del] doneCallback.simps [simp del]
  subjNext.simps [simp del] notify.simps [simp del]


text \<open>
  \<^verbatim>\<open>processQueue\<close>. Subscribing to a stopped subject attaches nothing.
\<close>

definition processQueue :: "host \<Rightarrow> phase \<Rightarrow> state \<Rightarrow> state" where
  "processQueue H p s =
     (if length (queue s p) = 0 then doneCallback H p None None s
      else processQueueItem H p
             (if stopped s p then s
              else s\<lparr> proc_subs := (proc_subs s)(p := proc_subs s p + 1) \<rparr>))"

text \<open>\<^verbatim>\<open>add\<close> and \<^verbatim>\<open>resolveMetaDataAndAdd\<close>.\<close>

definition targetName :: "target \<Rightarrow> string" where
  "targetName tgt = (case tgt of Token n \<Rightarrow> n | Class n \<Rightarrow> n)"

definition item_identifier :: "queue_item \<Rightarrow> string" where
  "item_identifier queueItem = targetName (itarget queueItem) @ ''_'' @ methodName queueItem"

definition add :: "queue_item \<Rightarrow> state \<Rightarrow> state" where
  "add queueItem s =
     s\<lparr> queue := (queue s)(itype queueItem :=
          map_set (item_identifier queueItem) queueItem (queue s (itype queueItem))) \<rparr>"

definition resolveMetaDataAndAdd :: "state \<Rightarrow> state" where
  "resolveMetaDataAndAdd s = foldl (\<lambda>st queueItem. add queueItem st) s (metadata s)"

text \<open>\<^verbatim>\<open>setupQueueCounts\<close>.\<close>

definition setupQueueCounts :: "host \<Rightarrow> state \<Rightarrow> state" where
  "setupQueueCounts H s =
     (let s1 = subjNext H FrameworkBeforeBoot (length (queue s FrameworkBeforeBoot)) s;
          s2 = subjNext H Before (length (queue s1 Before)) s1;
          s3 = subjNext H After (length (queue s2 After)) s2
      in subjNext H FrameworkAfterBoot (length (queue s3 FrameworkAfterBoot)) s3)"

text \<open>\<^verbatim>\<open>startLoading\<close>: \<^verbatim>\<open>autoClearSetTimeout\<close> arms the warm-up timer.\<close>

definition startLoading :: "state \<Rightarrow> state" where
  "startLoading s = setTimeout WarmUp s"

text \<open>
  The \<^verbatim>\<open>takeLast(1)\<close> subscriptions of \<^verbatim>\<open>bootstrap\<close>, each with the task its handler
  passes to \<^verbatim>\<open>nextTick\<close>.
\<close>

definition next_task :: "target \<Rightarrow> phase \<Rightarrow> task" where
  "next_task tgt p =
     (case p of
        FrameworkBeforeBoot \<Rightarrow> ProcessPhase Before
      | Before \<Rightarrow> ProcessPhase After
      | After \<Rightarrow> ProcessPhase FrameworkAfterBoot
      | FrameworkAfterBoot \<Rightarrow> FinishUp tgt)"

definition subscribeCounts :: "target \<Rightarrow> state \<Rightarrow> state" where
  "subscribeCounts tgt s =
     s\<lparr> tl_sub := (\<lambda>p. if stopped s p then tl_sub s p else Some (next_task tgt p)),
        tl_buf := (\<lambda>p. if stopped s p then tl_buf s p else None) \<rparr>"

definition subscribeStarting :: "state \<Rightarrow> state" where
  "subscribeStarting s =
     (if start_stopped s then s else s\<lparr> start_sub := True, start_buf := None \<rparr>)"

text \<open>\<^verbatim>\<open>bootstrap\<close>.\<close>

definition bootstrap :: "host \<Rightarrow> target \<Rightarrow> state \<Rightarrow> state" where
  "bootstrap H tgt s =
     (if isBootstrapped s then s
      else (startLoading
              (setupQueueCounts H
                 (subscribeStarting
                    (subscribeCounts tgt
                       (resolveMetaDataAndAdd s)))))
             \<lparr> isBootstrapped := True \<rparr>)"

text \<open>
  \<^verbatim>\<open>done\<close>: the callback subscribes to the finish subject behind \<^verbatim>\<open>filter(isFinished)\<close>;
  a stopped subject attaches nothing.
\<close>

definition done_reg :: "nat \<Rightarrow> state \<Rightarrow> state" where
  "done_reg callback s =
     (if fin_stopped s then s else s\<lparr> fin_subs := fin_subs s @ [callback] \<rparr>)"

text \<open>
  \<^verbatim>\<open>finishSubject$.next\<close> and \<^verbatim>\<open>finishSubject$.complete\<close>: \<^verbatim>\<open>subscribe(callback)\<close>
  makes the callback the \<^verbatim>\<open>next\<close> handler, which receives the emitted value.
\<close>

definition finNext :: "bool \<Rightarrow> state \<Rightarrow> state" where
  "finNext v s =
     (if fin_stopped s then s
      else if v then s\<lparr> trace := trace s @ map (\<lambda>cb. CbInvoked cb [v]) (fin_subs s) \<rparr>
      else s)"

definition finComplete :: "state \<Rightarrow> state" where
  "finComplete s = (if fin_stopped s then s else s\<lparr> fin_stopped := True, fin_subs := [] \<rparr>)"

text \<open>
  \<^verbatim>\<open>finishUpBooting\<close> registers the once-only hook; \<^verbatim>\<open>container.resolve\<close> of a target
  runs its pending hooks, each of which passes the firing of the finish subject to
  \<^verbatim>\<open>nextTick\<close>.
\<close>

definition finishUpBooting :: "target \<Rightarrow> state \<Rightarrow> state" where
  "finishUpBooting tgt s = s\<lparr> hooks := hooks s @ [tgt] \<rparr>"

definition containerResolve :: "target \<Rightarrow> state \<Rightarrow> state" where
  "containerResolve tgt s =
     s\<lparr> hooks := filter (\<lambda>h. h \<noteq> tgt) (hooks s),
        ticks := ticks s @ map (\<lambda>h. FireFinish) (filter (\<lambda>h. h = tgt) (hooks s)) \<rparr>"

text \<open>\<^verbatim>\<open>setupDoneTimeout\<close>, the handler of the watchdog.\<close>

definition setupDoneTimeout :: "host \<Rightarrow> string \<Rightarrow> string \<Rightarrow> nat \<Rightarrow> nat \<Rightarrow> state \<Rightarrow> state" where
  "setupDoneTimeout H moduleName method timeoutDuration timeoutId s =
     clearInterval H timeoutId
       (s\<lparr> trace := trace s @
            [Log (ForgottenDoneLog moduleName method), Log (IncreaseTimeoutLog timeoutDuration)] \<rparr>)"

text \<open>
  The listener of \<^verbatim>\<open>startLoading\<close>: the starting subject emits \<^verbatim>\<open>true\<close> and completes,
  on which its \<^verbatim>\<open>takeLast(1)\<close>, \<^verbatim>\<open>filter(value)\<close> subscriber passes the first phase to
  \<^verbatim>\<open>nextTick\<close>.
\<close>

definition startingFire :: "state \<Rightarrow> state" where
  "startingFire s =
     (let s1 = s\<lparr> trace := trace s @ [Log StartBootingLog] \<rparr>
      in if start_stopped s1 then s1
         else
           let buf = (if start_sub s1 then Some True else start_buf s1);
               s2 = s1\<lparr> start_buf := buf, start_stopped := True, start_sub := False \<rparr>
           in if start_sub s1 \<and> buf = Some True
              then s2\<lparr> ticks := ticks s2 @ [ProcessPhase FrameworkBeforeBoot] \<rparr>
              else s2)"

section \<open>The host: timers, ticks and completion callbacks\<close>

text \<open>
  A one-shot timer that fires leaves the armed timers and runs its handler: the warm-up
  handler of \<^verbatim>\<open>autoClearSetTimeout\<close> runs the listener and clears its own handle, the
  watchdog handler is \<^verbatim>\<open>setupDoneTimeout\<close>.
\<close>

definition fireTimer :: "host \<Rightarrow> nat \<Rightarrow> state \<Rightarrow> state" where
  "fireTimer H n s =
     (case map_of (timers s) n of
        None \<Rightarrow> s
      | Some t \<Rightarrow>
          let s1 = s\<lparr> timers := filter (\<lambda>x. fst x \<noteq> n) (timers s) \<rparr>
          in (case t of
                WarmUp \<Rightarrow> clearTimeout n (startingFire s1)
              | Watchdog moduleName method d \<Rightarrow> setupDoneTimeout H moduleName method d n s1))"

definition runTask :: "host \<Rightarrow> task \<Rightarrow> state \<Rightarrow> state" where
  "runTask H t s =
     (case t of
        ProcessPhase p \<Rightarrow> processQueue H p s
      | FinishUp tgt \<Rightarrow> containerResolve tgt (finishUpBooting tgt s)
      | FireFinish \<Rightarrow> finComplete (finNext True s))"

text \<open>
  What can happen to a service: its two public methods are called, an armed timer fires,
  the host runs the oldest \<^verbatim>\<open>nextTick\<close> task, or a method that was invoked calls the
  completion callback it was given (any number of times, at any later moment).
\<close>

datatype event =
    Bootstrap target
  | DoneReg nat
  | TimerFire nat
  | Tick
  | ItemDone phase string nat

definition step :: "host \<Rightarrow> state \<Rightarrow> event \<Rightarrow> state" where
  "step H s e =
     (case e of
        Bootstrap tgt \<Rightarrow> bootstrap H tgt s
      | DoneReg callback \<Rightarrow> done_reg callback s
      | TimerFire n \<Rightarrow> fireTimer H n s
      | Tick \<Rightarrow> (case ticks s of [] \<Rightarrow> s | t # ts \<Rightarrow> runTask H t (s\<lparr> ticks := ts \<rparr>))
      | ItemDone p key n \<Rightarrow>
          if Invoke p key n \<in> set (trace s)
          then doneCallback H p (Some key) (Some n) s
          else s)"

definition run :: "host \<Rightarrow> state \<Rightarrow> event list \<Rightarrow> state" where
  "run H s es = foldl (step H) s es"

text \<open>
  A fresh service: empty maps, fresh subjects, not bootstrapped; \<open>md\<close> is the metadata
  the decorators left and \<open>h0\<close> the first handle the host will hand out.
\<close>

definition init :: "queue_item list \<Rightarrow> nat \<Rightarrow> state" where
  "init md h0 =
     \<lparr> metadata = md, queue = (\<lambda>p. []), stopped = (\<lambda>p. False), tl_sub = (\<lambda>p. None),
       tl_buf = (\<lambda>p. None), proc_subs = (\<lambda>p. 0), start_stopped = False, start_sub = False,
       start_buf = None, fin_stopped = False, fin_subs = [], isBootstrapped = False,
       ticks = [], timers = [], nextTimerId = h0, hooks = [], trace = [] \<rparr>"

section \<open>Observations\<close>

text \<open>
  The invocations of \<^verbatim>\<open>done\<close> callbacks in a trace, and the part of the state that the
  queue machinery never touches.
\<close>

fun is_cb :: "obs \<Rightarrow> bool" where
  "is_cb (CbInvoked c args) = True"
| "is_cb e = False"

definition cb_trace :: "state \<Rightarrow> obs list" where
  "cb_trace s = filter is_cb (trace s)"

definition frame :: "state \<Rightarrow> bool \<times> bool \<times> nat list \<times> obs list" where
  "frame s = (isBootstrapped s, fin_stopped s, fin_subs s, cb_trace s)"

section \<open>Runs: the order of phases and the drained event\<close>

text \<open>
  The position of a phase in the fixed order; a phase is \<open>opened\<close> once the count
  subject of every earlier phase has completed.
\<close>

fun pidx :: "phase \<Rightarrow> nat" where
  "pidx FrameworkBeforeBoot = 0"
| "pidx Before = 1"
| "pidx After = 2"
| "pidx FrameworkAfterBoot = 3"

definition opened :: "phase \<Rightarrow> state \<Rightarrow> bool" where
  "opened p s \<longleftrightarrow> (\<forall>p'. pidx p' < pidx p \<longrightarrow> stopped s p')"

text \<open>
  The keys whose completion callback has been invoked in a trace, and how often the
  drained event of a phase occurs in it.
\<close>

definition done_keys :: "phase \<Rightarrow> obs list \<Rightarrow> string set" where
  "done_keys p tr = {k. \<exists>t. DoneCalled p (Some k) t \<in> set tr}"

definition drained_count :: "phase \<Rightarrow> obs list \<Rightarrow> nat" where
  "drained_count p tr = length (filter (\<lambda>e. e = Drained p) tr)"

text \<open>
  The keys registered into each phase, in the order of the map: what
  \<^verbatim>\<open>resolveMetaDataAndAdd\<close> builds from the metadata in empty maps.
\<close>

definition add_q ::
  "(phase \<Rightarrow> (string \<times> queue_item) list) \<Rightarrow> queue_item \<Rightarrow> phase \<Rightarrow> (string \<times> queue_item) list" where
  "add_q q queueItem =
     q(itype queueItem := map_set (item_identifier queueItem) queueItem (q (itype queueItem)))"

definition registered :: "queue_item list \<Rightarrow> phase \<Rightarrow> string list" where
  "registered md p = map fst (foldl add_q (\<lambda>p. []) md p)"

text \<open>
  A trace is \<open>ordered\<close> when every invocation of a method in it comes after the drained
  event of each earlier phase and after a completion callback of each key registered into
  each earlier phase.
\<close>

definition start_allowed :: "(phase \<Rightarrow> string list) \<Rightarrow> obs list \<Rightarrow> obs \<Rightarrow> bool" where
  "start_allowed K seen e \<longleftrightarrow>
     (\<forall>q k n. e = Invoke q k n \<longrightarrow>
        (\<forall>p. pidx p < pidx q \<longrightarrow> Drained p \<in> set seen \<and> set (K p) \<subseteq> done_keys p seen))"

definition ordered :: "(phase \<Rightarrow> string list) \<Rightarrow> obs list \<Rightarrow> bool" where
  "ordered K tr \<longleftrightarrow> (\<forall>xs e ys. tr = xs @ e # ys \<longrightarrow> start_allowed K xs e)"

text \<open>
  The invariant of a bootstrapped service, and the states a service can be in: not yet
  bootstrapped (then only \<^verbatim>\<open>done\<close> has changed anything), or bootstrapped and within the
  invariant.
\<close>

definition inv :: "(phase \<Rightarrow> string list) \<Rightarrow> target \<Rightarrow> state \<Rightarrow> bool" where
  "inv K tgt s \<longleftrightarrow>
     (\<forall>p. stopped s p \<longrightarrow> queue s p = []) \<and>
     (\<forall>p. drained_count p (trace s) = (if stopped s p then 1 else 0)) \<and>
     (\<forall>p. \<not> stopped s p \<longrightarrow> tl_sub s p = Some (next_task tgt p) \<and> tl_buf s p \<noteq> None) \<and>
     (\<forall>p. set (K p) \<subseteq> fst ` set (queue s p) \<union> done_keys p (trace s)) \<and>
     (\<forall>p. (ProcessPhase p \<in> set (ticks s) \<or> (\<exists>k n. Invoke p k n \<in> set (trace s))) \<longrightarrow> opened p s) \<and>
     ordered K (trace s)"

definition fresh :: "queue_item list \<Rightarrow> state \<Rightarrow> bool" where
  "fresh md s \<longleftrightarrow> (\<exists>h0 subs. s = (init md h0)\<lparr>fin_subs := subs\<rparr>)"

definition good :: "queue_item list \<Rightarrow> state \<Rightarrow> bool" where
  "good md s \<longleftrightarrow> fresh md s \<or> (isBootstrapped s \<and> (\<exists>tgt. inv (registered md) tgt s))"

text \<open>Trace entries that neither start, complete nor drain anything.\<close>

fun is_plain :: "obs \<Rightarrow> bool" where
  "is_plain (Invoke p k n) = False"
| "is_plain (DoneCalled p k n) = False"
| "is_plain (Drained p) = False"
| "is_plain e = True"

section \<open>Runs: the order of the items of a phase\<close>

text \<open>
  The keys of a phase whose method has been invoked, and those whose completion callback
  has been invoked, in the order of the trace; and the completion callbacks of the phase
  that have been handed out and not yet invoked.
\<close>

definition started :: "phase \<Rightarrow> obs list \<Rightarrow> string list" where
  "started p tr =
     concat (map (\<lambda>e. case e of Invoke q k n \<Rightarrow> if q = p then [k] else [] | _ \<Rightarrow> []) tr)"

definition completed :: "phase \<Rightarrow> obs list \<Rightarrow> string list" where
  "completed p tr =
     concat (map (\<lambda>e. case e of DoneCalled q (Some k) t \<Rightarrow> if q = p then [k] else [] | _ \<Rightarrow> []) tr)"

definition live :: "phase \<Rightarrow> obs list \<Rightarrow> (string \<times> nat) set" where
  "live p tr = {(k, n). Invoke p k n \<in> set tr \<and> DoneCalled p (Some k) (Some n) \<notin> set tr}"


text \<open>
  The invariant of such a run. The processing of a phase is released (\<open>gate\<close>) by
  the completion of the subject before it; \<open>bP\<close> says of one phase that the completed
  keys followed by the keys still in the map are the registered keys, that at most one
  completion callback is outstanding and belongs to the first key of the map, that the
  task of the phase is queued at most once and only before anything of the phase has
  happened, and that \<^verbatim>\<open>processQueue\<close> has subscribed at most once.
\<close>

definition gate :: "phase \<Rightarrow> state \<Rightarrow> bool" where
  "gate p s =
     (case p of
        FrameworkBeforeBoot \<Rightarrow> start_stopped s
      | Before \<Rightarrow> stopped s FrameworkBeforeBoot
      | After \<Rightarrow> stopped s Before
      | FrameworkAfterBoot \<Rightarrow> stopped s After)"






text \<open>Trace entries that neither invoke a method nor complete a key.\<close>

fun is_quiet :: "obs \<Rightarrow> bool" where
  "is_quiet (Invoke p k n) = False"
| "is_quiet (DoneCalled p (Some k) t) = False"
| "is_quiet e = True"

section \<open>Sample hosts and runs\<close>

text \<open>
  A host on which every method calls its completion callback before it returns, and one
  on which class \<^verbatim>\<open>B\<close> defers it and class \<^verbatim>\<open>Chat_Module\<close> has no method at all. On
  both, \<^verbatim>\<open>alt.clearInterval\<close> cancels intervals only and leaves one-shot timers armed.
\<close>

definition quiet_host :: host where
  "quiet_host = \<lparr> resolveH = (\<lambda>tgt m. Some CallsDoneSync), clearIntervalH = (\<lambda>n ts. ts) \<rparr>"

definition sample_host :: host where
  "sample_host =
     \<lparr> resolveH = (\<lambda>tgt m. if tgt = Class ''Chat_Module'' then None
                            else if tgt = Class ''B'' then Some Defers
                            else Some CallsDoneSync),
       clearIntervalH = (\<lambda>n ts. ts) \<rparr>"

definition item_of :: "phase \<Rightarrow> string \<Rightarrow> queue_item" where
  "item_of p n = \<lparr> itype = p, itarget = Class n, methodName = ''autoStart'', doneCheckTimeout = 100 \<rparr>"

text \<open>
  A complete boot with no items: the warm-up timer (handle 1) fires, four empty phases
  drain on four ticks, the target resolves and the finish subject fires.
\<close>

definition boot_events :: "event list" where
  "boot_events = [Bootstrap (Token ''app''), TimerFire 1, Tick, Tick, Tick, Tick, Tick, Tick]"

definition finished_run :: state where
  "finished_run = run quiet_host (init [] 1) (DoneReg 7 # boot_events)"

text \<open>
  The state in which the method of \<^verbatim>\<open>B\<close> has been invoked and holds its completion
  callback, and the state in which phase \<^verbatim>\<open>before\<close>, whose only item is of class
  \<^verbatim>\<open>Chat_Module\<close>, is about to be processed.
\<close>

definition inflight_state :: state where
  "inflight_state =
     run sample_host (init [item_of Before ''B''] 1)
       [Bootstrap (Token ''app''), TimerFire 1, Tick, Tick]"

definition stalled_state :: state where
  "stalled_state =
     run sample_host (init [item_of Before ''Chat_Module''] 1)
       [Bootstrap (Token ''app''), TimerFire 1, Tick]"

text \<open>
  A boot with one item in phase \<^verbatim>\<open>before\<close> and one in phase \<^verbatim>\<open>after\<close>, both calling
  their completion callback at once.
\<close>

definition two_phase_run :: state where
  "two_phase_run =
     run sample_host (init [item_of Before ''A'', item_of After ''D''] 1)
       [Bootstrap (Token ''app''), TimerFire 1, Tick, Tick, Tick]"



section \<open>What the queue machinery leaves alone\<close>

lemma frame_subjComplete: "frame (subjComplete p s) = frame s"
  by (simp add: frame_def cb_trace_def subjComplete_def Let_def split: option.splits)

lemma frame_clearIf: "frame (clearIf H i s) = frame s"
  by (simp add: frame_def cb_trace_def clearIf_def clearInterval_def split: option.splits)

lemma frame_upd:
  "frame (s\<lparr>queue := q\<rparr>) = frame s"
  "frame (s\<lparr>tl_buf := b\<rparr>) = frame s"
  "frame (s\<lparr>proc_subs := ps\<rparr>) = frame s"
  "frame (setTimeout t s) = frame s"
  "\<not> is_cb e \<Longrightarrow> frame (s\<lparr>trace := trace s @ [e]\<rparr>) = frame s"
  by (simp_all add: frame_def cb_trace_def setTimeout_def)

lemma frame_mutual:
  "frame (processQueueItem H p s) = frame s"
  "frame (doneCallback H p key tid s) = frame s"
  "frame (subjNext H p v s) = frame s"
  "frame (notify H n p s) = frame s"
proof (induct H p s and H p key tid s and H p v s and H n p s
       rule: processQueueItem_doneCallback_subjNext_notify.induct)
  case (1 H p s)
  then show ?case
    by (subst processQueueItem.simps)
       (auto split: list.splits option.splits behaviour.splits
             simp: frame_def cb_trace_def setTimeout_def)
next
  case (2 H p key tid s)
  then show ?case
    by (subst doneCallback.simps) (simp add: Let_def frame_subjComplete frame_clearIf frame_upd)
next
  case (3 H p v s)
  then show ?case by (subst subjNext.simps) (simp add: frame_upd)
next
  case (4 H n p s)
  then show ?case by (subst notify.simps) (simp split: nat.splits)
qed

lemma frame_processQueue: "frame (processQueue H p s) = frame s"
  by (simp add: processQueue_def frame_mutual frame_upd)

lemma frame_add_fold:
  "frame (foldl (\<lambda>st queueItem. add queueItem st) s items) = frame s"
  by (induction items arbitrary: s) (simp_all add: add_def frame_upd)

lemma frame_setupQueueCounts: "frame (setupQueueCounts H s) = frame s"
  by (simp add: setupQueueCounts_def Let_def frame_mutual)

lemma bootstrap_frame:
  "snd (frame (bootstrap H tgt s)) = snd (frame s)"
proof -
  have a: "snd (frame (resolveMetaDataAndAdd s)) = snd (frame s)"
    by (simp add: resolveMetaDataAndAdd_def frame_add_fold)
  have b: "snd (frame (subscribeStarting (subscribeCounts tgt t))) = snd (frame t)" for t
    by (simp add: subscribeStarting_def subscribeCounts_def frame_def cb_trace_def)
  have c: "snd (frame ((startLoading t)\<lparr>isBootstrapped := True\<rparr>)) = snd (frame t)" for t
    by (simp add: startLoading_def setTimeout_def frame_def cb_trace_def)
  show ?thesis
    by (simp add: bootstrap_def a b c frame_setupQueueCounts)
qed

lemma bootstrap_isBootstrapped: "isBootstrapped (bootstrap H tgt s)"
  by (simp add: bootstrap_def)

lemma frame_fireTimer: "frame (fireTimer H n s) = frame s"
  by (simp add: fireTimer_def Let_def clearTimeout_def startingFire_def setupDoneTimeout_def
        clearInterval_def frame_def cb_trace_def split: option.splits timer_task.splits)

text \<open>
  Every event either leaves the finish subject and the callback invocations alone, or
  attaches one more callback to a finish subject that has not fired, or fires it: then
  each attached callback is invoked, with the emitted value as its argument.
\<close>

lemma step_fin_cases:
  "(fin_stopped (step H s e) = fin_stopped s \<and> cb_trace (step H s e) = cb_trace s \<and>
      (fin_subs (step H s e) = fin_subs s \<or>
       (\<not> fin_stopped s \<and> (\<exists>c. fin_subs (step H s e) = fin_subs s @ [c])))) \<or>
   (\<not> fin_stopped s \<and> fin_stopped (step H s e) \<and>
      cb_trace (step H s e) = cb_trace s @ map (\<lambda>cb. CbInvoked cb [True]) (fin_subs s))"
proof (cases e)
  case (Bootstrap tgt)
  then show ?thesis using bootstrap_frame[of H tgt s] by (simp add: step_def frame_def)
next
  case (DoneReg c)
  then show ?thesis by (simp add: step_def done_reg_def cb_trace_def)
next
  case (TimerFire n)
  then show ?thesis using frame_fireTimer[of H n s] by (simp add: step_def frame_def)
next
  case Tick
  show ?thesis
  proof (cases "ticks s")
    case Nil
    then show ?thesis using Tick by (simp add: step_def)
  next
    case (Cons t ts)
    show ?thesis
    proof (cases t)
      case (ProcessPhase p)
      then show ?thesis using Tick Cons frame_processQueue[of H p "s\<lparr>ticks := ts\<rparr>"]
        by (simp add: step_def runTask_def frame_def cb_trace_def)
    next
      case (FinishUp tgt)
      then show ?thesis using Tick Cons
        by (simp add: step_def runTask_def containerResolve_def finishUpBooting_def cb_trace_def)
    next
      case FireFinish
      then show ?thesis using Tick Cons
        by (simp add: step_def runTask_def finComplete_def finNext_def cb_trace_def)
    qed
  qed
next
  case (ItemDone p key n)
  then show ?thesis using frame_mutual(2)[of H p "Some key" "Some n" s]
    by (simp add: step_def frame_def)
qed

lemma step_isBootstrapped: "isBootstrapped s \<Longrightarrow> isBootstrapped (step H s e)"
proof (cases e)
  case (Bootstrap tgt)
  then show ?thesis by (simp add: step_def bootstrap_isBootstrapped)
next
  case (DoneReg c)
  assume "isBootstrapped s"
  then show ?thesis using DoneReg by (simp add: step_def done_reg_def)
next
  case (TimerFire n)
  assume "isBootstrapped s"
  then show ?thesis using TimerFire frame_fireTimer[of H n s] by (simp add: step_def frame_def)
next
  case Tick
  assume b: "isBootstrapped s"
  show ?thesis
  proof (cases "ticks s")
    case Nil
    then show ?thesis using Tick b by (simp add: step_def)
  next
    case (Cons t ts)
    show ?thesis
    proof (cases t)
      case (ProcessPhase p)
      then show ?thesis using Tick Cons b frame_processQueue[of H p "s\<lparr>ticks := ts\<rparr>"]
        by (simp add: step_def runTask_def frame_def)
    next
      case (FinishUp tgt)
      then show ?thesis using Tick Cons b
        by (simp add: step_def runTask_def containerResolve_def finishUpBooting_def)
    next
      case FireFinish
      then show ?thesis using Tick Cons b
        by (simp add: step_def runTask_def finComplete_def finNext_def)
    qed
  qed
next
  case (ItemDone p key n)
  assume "isBootstrapped s"
  then show ?thesis using ItemDone frame_mutual(2)[of H p "Some key" "Some n" s]
    by (simp add: step_def frame_def)
qed

lemma run_isBootstrapped: "isBootstrapped s \<Longrightarrow> isBootstrapped (run H s es)"
  unfolding run_def by (induction es arbitrary: s) (simp_all add: step_isBootstrapped)

section \<open>bootstrap and done\<close>

text \<open>
  Claim C6. \<^verbatim>\<open>bootstrap\<close> is idempotent: once \<^verbatim>\<open>bootstrap\<close> has been called on a
  service, whatever happens afterwards (timers, ticks, completion callbacks, further calls),
  another call of \<^verbatim>\<open>bootstrap\<close>, with any target, returns the service with its whole
  state as it was: no map is refilled, no subscription, timer or task is added.
\<close>

theorem bootstrap_idempotent:
  "bootstrap H tgt' (run H (bootstrap H tgt s) es) = run H (bootstrap H tgt s) es"
proof -
  have "isBootstrapped (run H (bootstrap H tgt s) es)"
    by (rule run_isBootstrapped) (rule bootstrap_isBootstrapped)
  then show ?thesis by (simp add: bootstrap_def)
qed

lemma run_fin_stopped:
  "fin_stopped s \<Longrightarrow> fin_stopped (run H s es) \<and> cb_trace (run H s es) = cb_trace s"
  unfolding run_def
proof (induction es arbitrary: s)
  case Nil
  then show ?case by simp
next
  case (Cons e es)
  from step_fin_cases[of H s e] Cons.prems
  have "fin_stopped (step H s e)" and "cb_trace (step H s e) = cb_trace s" by auto
  with Cons.IH[of "step H s e"] show ?case by simp
qed

text \<open>
  Claim C8. A callback given to \<^verbatim>\<open>done\<close> after the finish subject has fired is never
  invoked: the subscription attaches nothing (the state is unchanged), and whatever
  happens afterwards, the callback invocations in the trace stay those that were there
  before the registration.
\<close>

theorem done_after_finish_never_invoked:
  "fin_stopped s \<Longrightarrow>
     done_reg callback s = s \<and>
     (\<forall>es. cb_trace (run H (done_reg callback s) es) = cb_trace s)"
  using run_fin_stopped[of "done_reg callback s" H] by (simp add: done_reg_def)

lemma finished_run_stopped: "fin_stopped finished_run"
  unfolding finished_run_def boot_events_def quiet_host_def by code_simp

theorem done_after_finish_never_invoked_witness:
  "fin_stopped finished_run \<and> done_reg 8 finished_run = finished_run \<and>
   cb_trace (run quiet_host (done_reg 8 finished_run) [Tick, TimerFire 1, DoneReg 8, Tick])
     = cb_trace finished_run"
  using done_after_finish_never_invoked[OF finished_run_stopped, of 8 quiet_host]
    finished_run_stopped by blast

text \<open>
  Claim C7, as stated, fails. In the complete boot with callback 7 registered first, the
  finish subject fires and the callback is invoked once, with the emitted value
  \<^verbatim>\<open>true\<close> as its argument and never with no arguments: \<^verbatim>\<open>subscribe(callback)\<close> makes
  the callback the handler of \<^verbatim>\<open>next(true)\<close>.
\<close>

theorem done_callback_args_counterexample:
  "fin_stopped finished_run \<and> cb_trace finished_run = [CbInvoked 7 [True]] \<and>
   CbInvoked 7 [] \<notin> set (trace finished_run)"
  unfolding finished_run_def boot_events_def quiet_host_def cb_trace_def by code_simp

lemma run_fin_invoked:
  "(c \<in> set (fin_subs s) \<and> \<not> fin_stopped s) \<or> CbInvoked c [True] \<in> set (cb_trace s) \<Longrightarrow>
   fin_stopped (run H s es) \<Longrightarrow> CbInvoked c [True] \<in> set (cb_trace (run H s es))"
  unfolding run_def
proof (induction es arbitrary: s)
  case Nil
  then show ?case by auto
next
  case (Cons e es)
  from step_fin_cases[of H s e] Cons.prems(1)
  have "(c \<in> set (fin_subs (step H s e)) \<and> \<not> fin_stopped (step H s e)) \<or>
        CbInvoked c [True] \<in> set (cb_trace (step H s e))"
    by auto
  from Cons.IH[OF this] Cons.prems(2) show ?case by simp
qed

lemma run_cb_args:
  "e \<in> set (cb_trace (run H s es)) \<Longrightarrow>
     e \<in> set (cb_trace s) \<or> (\<exists>c. e = CbInvoked c [True])"
  unfolding run_def
proof (induction es arbitrary: s)
  case Nil
  then show ?case by simp
next
  case (Cons x es)
  from Cons.IH[of "step H s x"] Cons.prems
  have "e \<in> set (cb_trace (step H s x)) \<or> (\<exists>c. e = CbInvoked c [True])" by simp
  with step_fin_cases[of H s x] show ?case by auto
qed

text \<open>
  Claim C7, amended. A callback given to \<^verbatim>\<open>done\<close> before the finish subject fires is
  invoked, once the subject has fired, with the single argument \<^verbatim>\<open>true\<close>; and every
  invocation of it that the run adds carries exactly that argument.
\<close>

theorem done_callback_invoked_with_true:
  "\<not> fin_stopped s \<Longrightarrow> fin_stopped (run H (done_reg callback s) es) \<Longrightarrow>
     CbInvoked callback [True] \<in> set (trace (run H (done_reg callback s) es)) \<and>
     (\<forall>args. CbInvoked callback args \<in> set (trace (run H (done_reg callback s) es)) \<longrightarrow>
        args = [True] \<or> CbInvoked callback args \<in> set (trace s))"
proof -
  assume a: "\<not> fin_stopped s" and b: "fin_stopped (run H (done_reg callback s) es)"
  have "callback \<in> set (fin_subs (done_reg callback s)) \<and> \<not> fin_stopped (done_reg callback s)"
    using a by (simp add: done_reg_def)
  from run_fin_invoked[OF disjI1[OF this] b]
  have one: "CbInvoked callback [True] \<in> set (trace (run H (done_reg callback s) es))"
    by (simp add: cb_trace_def)
  have two: "args = [True] \<or> CbInvoked callback args \<in> set (trace s)"
    if "CbInvoked callback args \<in> set (trace (run H (done_reg callback s) es))" for args
  proof -
    from that have "CbInvoked callback args \<in> set (cb_trace (run H (done_reg callback s) es))"
      by (simp add: cb_trace_def)
    from run_cb_args[OF this] show ?thesis using a by (auto simp: cb_trace_def done_reg_def)
  qed
  from one two show ?thesis by blast
qed

lemma init_not_fin: "\<not> fin_stopped (init [] 1)"
  by (simp add: init_def)

lemma finished_run_stopped': "fin_stopped (run quiet_host (done_reg 7 (init [] 1)) boot_events)"
  unfolding boot_events_def quiet_host_def by code_simp

theorem done_callback_invoked_with_true_witness:
  "\<not> fin_stopped (init [] 1) \<and> fin_stopped (run quiet_host (done_reg 7 (init [] 1)) boot_events) \<and>
   CbInvoked 7 [True] \<in> set (trace (run quiet_host (done_reg 7 (init [] 1)) boot_events))"
proof -
  note b = finished_run_stopped'
  from done_callback_invoked_with_true[OF init_not_fin b] init_not_fin b
  show ?thesis by blast
qed

section \<open>Completion callback, missing method, watchdog\<close>

text \<open>
  Claim C3 fails on the code. The method of \<^verbatim>\<open>B\<close> holds its completion callback and
  the watchdog armed for it by \<^verbatim>\<open>setTimeout\<close> has handle 2. When the callback is
  invoked, the item is removed from its map by its key and the phase drains, but the
  handle is passed to \<^verbatim>\<open>clearInterval\<close>; \<^verbatim>\<open>clearTimeout\<close> is never called, and on a host
  whose \<^verbatim>\<open>clearInterval\<close> cancels intervals only the watchdog stays armed.
\<close>

theorem doneCallback_uses_clearInterval:
  "timers inflight_state = [(2, Watchdog ''B'' ''autoStart'' 100)] \<and>
   trace (step sample_host inflight_state (ItemDone Before ''B_autoStart'' 2)) =
     trace inflight_state @
       [DoneCalled Before (Some ''B_autoStart'') (Some 2), ClearIntervalCall 2, Drained Before] \<and>
   ClearTimeoutCall 2 \<notin> set (trace (step sample_host inflight_state (ItemDone Before ''B_autoStart'' 2))) \<and>
   timers (step sample_host inflight_state (ItemDone Before ''B_autoStart'' 2)) =
     [(2, Watchdog ''B'' ''autoStart'' 100)] \<and>
   queue (step sample_host inflight_state (ItemDone Before ''B_autoStart'' 2)) Before = []"
  unfolding inflight_state_def sample_host_def item_of_def by code_simp

lemma stalled_queue:
  "queue stalled_state Before = [(''Chat_Module_autoStart'', item_of Before ''Chat_Module'')]"
  unfolding stalled_state_def sample_host_def item_of_def by code_simp

text \<open>
  Claim C4 fails on the code in what the log line names. The only item of the phase is
  method \<^verbatim>\<open>autoStart\<close> of class \<^verbatim>\<open>Chat_Module\<close>, which the instance lacks. Processing
  it leaves the whole state as it was (the item stays in its map, no watchdog is armed,
  nothing advances) except for one log line, and that line names module \<^verbatim>\<open>Chat\<close> and
  method \<^verbatim>\<open>Module\<close>: the first two pieces of the key split at every underscore.
\<close>

theorem missing_method_log_names_key_parts:
  "queue stalled_state Before = [(''Chat_Module_autoStart'', item_of Before ''Chat_Module'')] \<and>
   resolveH sample_host (Class ''Chat_Module'') ''autoStart'' = None \<and>
   processQueueItem sample_host Before stalled_state =
     stalled_state \<lparr> trace := trace stalled_state @ [Log (MissingMethodLog ''Chat'' ''Module'')] \<rparr>"
  by (subst processQueueItem.simps)
     (simp add: stalled_queue sample_host_def item_of_def part_def)

text \<open>
  In general: processing an item whose instance lacks the method changes nothing but the
  log; the line names the target and the method when neither name contains an underscore.
\<close>

lemma js_split_plain: "CHR ''_'' \<notin> set m \<Longrightarrow> js_split m = [m]"
  by (induction m) auto

lemma js_split_key:
  "CHR ''_'' \<notin> set t \<Longrightarrow> CHR ''_'' \<notin> set m \<Longrightarrow> js_split (t @ ''_'' @ m) = [t, m]"
  by (induction t) (auto simp: js_split_plain)

lemma missing_method_stalls:
  assumes "queue s p = (k, it) # rest" and "resolveH H (itarget it) (methodName it) = None"
  shows "processQueueItem H p s =
           s\<lparr>trace := trace s @ [Log (MissingMethodLog (part 0 (js_split k)) (part 1 (js_split k)))]\<rparr>"
  using assms by (subst processQueueItem.simps) simp

lemma missing_method_names:
  assumes "CHR ''_'' \<notin> set (targetName (itarget it))" and "CHR ''_'' \<notin> set (methodName it)"
  shows "part 0 (js_split (item_identifier it)) = targetName (itarget it)"
    and "part 1 (js_split (item_identifier it)) = methodName it"
  using js_split_key[OF assms] by (simp_all add: item_identifier_def part_def)

lemma queue_subjComplete: "queue (subjComplete p s) = queue s"
  by (simp add: subjComplete_def Let_def split: option.splits)

lemma queue_clearIf: "queue (clearIf H i s) = queue s"
  by (simp add: clearIf_def clearInterval_def split: option.splits)

lemma trace_subjComplete: "set (trace s) \<subseteq> set (trace (subjComplete p s))"
  by (auto simp add: subjComplete_def Let_def split: option.splits)

lemma trace_clearIf: "set (trace s) \<subseteq> set (trace (clearIf H i s))"
  by (auto simp add: clearIf_def clearInterval_def split: option.splits)

lemma set_delete_key: "set (delete_key key kvs) \<subseteq> set kvs"
  by (auto simp: delete_key_def map_delete_def split: option.splits)

lemma queue_shrinks:
  "set (queue (processQueueItem H p s) q) \<subseteq> set (queue s q) \<and>
   set (trace s) \<subseteq> set (trace (processQueueItem H p s))"
  "set (queue (doneCallback H p key tid s) q) \<subseteq> set (if q = p then delete_key key (queue s q) else queue s q) \<and>
   insert (DoneCalled p key tid) (set (trace s)) \<subseteq> set (trace (doneCallback H p key tid s))"
  "set (queue (subjNext H p v s) q) \<subseteq> set (queue s q) \<and>
   set (trace s) \<subseteq> set (trace (subjNext H p v s))"
  "set (queue (notify H n p s) q) \<subseteq> set (queue s q) \<and>
   set (trace s) \<subseteq> set (trace (notify H n p s))"
proof (induct H p s and H p key tid s and H p v s and H n p s
       rule: processQueueItem_doneCallback_subjNext_notify.induct)
  case (1 H p s)
  show ?case
  proof (cases "queue s p")
    case Nil
    then show ?thesis by (subst (1 2) processQueueItem.simps) simp
  next
    case (Cons kv rest)
    obtain k it where kv: "kv = (k, it)" by (cases kv)
    show ?thesis
    proof (cases "resolveH H (itarget it) (methodName it)")
      case None
      then show ?thesis using Cons kv by (subst (1 2) processQueueItem.simps) auto
    next
      case (Some b)
      show ?thesis
      proof (cases b)
        case Defers
        then show ?thesis using Cons kv Some
          by (subst (1 2) processQueueItem.simps) (auto simp: setTimeout_def)
      next
        case CallsDoneSync
        from 1[OF Cons kv[symmetric] Some CallsDoneSync] set_delete_key[of "Some k" "queue s q"]
        show ?thesis using Cons kv Some CallsDoneSync
          by (subst (1 2) processQueueItem.simps) (auto simp: setTimeout_def split: if_splits)
      qed
    qed
  qed
next
  case (2 H p key tid s)
  then show ?case
    using trace_clearIf[of "s\<lparr>trace := trace s @ [DoneCalled p key tid]\<rparr>" H tid]
    by (subst (1 2) doneCallback.simps)
       (auto simp add: Let_def queue_subjComplete queue_clearIf
             intro: subsetD[OF trace_subjComplete] split: if_splits)
next
  case (3 H p v s)
  then show ?case by (subst (1 2) subjNext.simps) simp
next
  case (4 H n p s)
  show ?case
  proof (cases n)
    case 0
    then show ?thesis by (subst (1 2) notify.simps) simp
  next
    case (Suc m)
    show ?thesis
    proof (cases "stopped s p")
      case True
      then show ?thesis using Suc by (subst (1 2) notify.simps) simp
    next
      case False
      from 4(1)[OF Suc False] 4(2)[OF Suc False] have
        "set (queue (notify H m p (processQueueItem H p s)) q) \<subseteq> set (queue s q) \<and>
         set (trace s) \<subseteq> set (trace (notify H m p (processQueueItem H p s)))"
        by blast
      then show ?thesis using Suc False by (subst (1 2) notify.simps) simp
    qed
  qed
qed

lemma done_removes_key:
  "key \<notin> fst ` set (queue (doneCallback H p (Some key) tid s) p)"
  using queue_shrinks(2)[of H p "Some key" tid s p]
  by (auto simp: delete_key_def map_delete_def)

text \<open>
  Claim C9. When the watchdog of an item fires, its handler writes the two warning lines
  and passes its own, already fired handle to \<^verbatim>\<open>clearInterval\<close>; nothing else changes:
  the item stays in its map, the subjects and the tick queue are as they were, no timer
  is armed. A completion callback invoked afterwards is recorded and removes its item as
  usual.
\<close>

theorem watchdog_only_logs:
  "map_of (timers s) n = Some (Watchdog moduleName method d) \<Longrightarrow>
     fireTimer H n s =
       s\<lparr> timers := clearIntervalH H n (filter (\<lambda>x. fst x \<noteq> n) (timers s)),
          trace := trace s @ [Log (ForgottenDoneLog moduleName method),
                              Log (IncreaseTimeoutLog d), ClearIntervalCall n] \<rparr> \<and>
     key \<notin> fst ` set (queue (doneCallback H p (Some key) tid (fireTimer H n s)) p) \<and>
     DoneCalled p (Some key) tid \<in> set (trace (doneCallback H p (Some key) tid (fireTimer H n s)))"
  using done_removes_key[of key H p tid "fireTimer H n s"]
    queue_shrinks(2)[of H p "Some key" tid "fireTimer H n s" p]
  by (simp add: fireTimer_def setupDoneTimeout_def clearInterval_def)

lemma inflight_timer: "map_of (timers inflight_state) 2 = Some (Watchdog ''B'' ''autoStart'' 100)"
  unfolding inflight_state_def sample_host_def item_of_def by code_simp

theorem watchdog_only_logs_witness:
  "map_of (timers inflight_state) 2 = Some (Watchdog ''B'' ''autoStart'' 100) \<and>
   fireTimer sample_host 2 inflight_state =
     inflight_state\<lparr> timers := clearIntervalH sample_host 2
                                   (filter (\<lambda>x. fst x \<noteq> 2) (timers inflight_state)),
        trace := trace inflight_state @ [Log (ForgottenDoneLog ''B'' ''autoStart''),
                                         Log (IncreaseTimeoutLog 100), ClearIntervalCall 2] \<rparr> \<and>
   ''B_autoStart'' \<notin> fst ` set (queue (doneCallback sample_host Before (Some ''B_autoStart'') (Some 2)
                                        (fireTimer sample_host 2 inflight_state)) Before)"
  using watchdog_only_logs[OF inflight_timer, of sample_host "''B_autoStart''" Before "Some 2"]
    inflight_timer by blast

section \<open>The Autoload decorator's defaults\<close>

text \<open>
  Claim C10. With the options omitted, or given without a field, the item that
  \<^verbatim>\<open>Autoload\<close> appends to the metadata has \<^verbatim>\<open>methodName\<close> \<^verbatim>\<open>autoStart\<close> and
  \<^verbatim>\<open>doneCheckTimeout\<close> 5000 for the missing fields; a field that is given overrides its
  default.
\<close>

theorem Autoload_defaults:
  "Autoload ty None tgt config =
     config @ [\<lparr> itype = ty, itarget = tgt, methodName = ''autoStart'', doneCheckTimeout = 5000 \<rparr>] \<and>
   Autoload ty (Some \<lparr> opt_methodName = None, opt_doneCheckTimeout = None \<rparr>) tgt config =
     config @ [\<lparr> itype = ty, itarget = tgt, methodName = ''autoStart'', doneCheckTimeout = 5000 \<rparr>] \<and>
   Autoload ty (Some \<lparr> opt_methodName = Some m, opt_doneCheckTimeout = None \<rparr>) tgt config =
     config @ [\<lparr> itype = ty, itarget = tgt, methodName = m, doneCheckTimeout = 5000 \<rparr>] \<and>
   Autoload ty (Some \<lparr> opt_methodName = None, opt_doneCheckTimeout = Some d \<rparr>) tgt config =
     config @ [\<lparr> itype = ty, itarget = tgt, methodName = ''autoStart'', doneCheckTimeout = d \<rparr>] \<and>
   Autoload ty (Some \<lparr> opt_methodName = Some m, opt_doneCheckTimeout = Some d \<rparr>) tgt config =
     config @ [\<lparr> itype = ty, itarget = tgt, methodName = m, doneCheckTimeout = d \<rparr>]"
  by (simp add: Autoload_def defaultOptions_def)

section \<open>The invariant of a bootstrapped service\<close>

lemma ordered_snoc: "ordered K (tr @ [e]) \<longleftrightarrow> ordered K tr \<and> start_allowed K tr e"
proof
  assume a: "ordered K (tr @ [e])"
  have "ordered K tr"
    unfolding ordered_def
  proof (intro allI impI)
    fix xs x ys assume "tr = xs @ x # ys"
    then have "tr @ [e] = xs @ x # (ys @ [e])" by simp
    with a show "start_allowed K xs x" unfolding ordered_def by blast
  qed
  moreover have "start_allowed K tr e" using a unfolding ordered_def by blast
  ultimately show "ordered K tr \<and> start_allowed K tr e" ..
next
  assume a: "ordered K tr \<and> start_allowed K tr e"
  show "ordered K (tr @ [e])"
    unfolding ordered_def
  proof (intro allI impI)
    fix xs x ys assume eq: "tr @ [e] = xs @ x # ys"
    show "start_allowed K xs x"
    proof (cases ys rule: rev_cases)
      case Nil
      with eq have "xs = tr" "x = e" by simp_all
      with a show ?thesis by simp
    next
      case (snoc ys' y)
      with eq have "tr = xs @ x # ys'" by simp
      with a show ?thesis unfolding ordered_def by blast
    qed
  qed
qed

lemma ordered_append_plain:
  "ordered K tr \<Longrightarrow> list_all is_plain es \<Longrightarrow> ordered K (tr @ es)"
proof (induction es rule: rev_induct)
  case Nil
  then show ?case by simp
next
  case (snoc e es)
  then have "ordered K (tr @ es)" and "is_plain e" by simp_all
  then have "ordered K ((tr @ es) @ [e])"
    unfolding ordered_snoc by (cases e) (simp_all add: start_allowed_def)
  then show ?case by simp
qed

lemma plain_facts:
  assumes "list_all is_plain es"
  shows "drained_count p (tr @ es) = drained_count p tr"
    and "done_keys p (tr @ es) = done_keys p tr"
    and "Invoke p k n \<in> set (tr @ es) \<longleftrightarrow> Invoke p k n \<in> set tr"
proof -
  have n: "is_plain e" if "e \<in> set es" for e using assms that by (simp add: list_all_iff)
  have a: "Drained p \<notin> set es" using n[of "Drained p"] by auto
  have b: "DoneCalled p k' t \<notin> set es" for k' t using n[of "DoneCalled p k' t"] by auto
  have c: "Invoke p k n \<notin> set es" using n[of "Invoke p k n"] by auto
  from a have "filter (\<lambda>e. e = Drained p) es = []" by (auto simp: filter_empty_conv)
  then show "drained_count p (tr @ es) = drained_count p tr" by (simp add: drained_count_def)
  show "done_keys p (tr @ es) = done_keys p tr" using b by (auto simp: done_keys_def)
  show "Invoke p k n \<in> set (tr @ es) \<longleftrightarrow> Invoke p k n \<in> set tr" using c by auto
qed

lemma invI:
  assumes "\<And>p. stopped s p \<Longrightarrow> queue s p = []"
    and "\<And>p. drained_count p (trace s) = (if stopped s p then 1 else 0)"
    and "\<And>p. \<not> stopped s p \<Longrightarrow> tl_sub s p = Some (next_task tgt p) \<and> tl_buf s p \<noteq> None"
    and "\<And>p. set (K p) \<subseteq> fst ` set (queue s p) \<union> done_keys p (trace s)"
    and "\<And>p. ProcessPhase p \<in> set (ticks s) \<Longrightarrow> opened p s"
    and "\<And>p k n. Invoke p k n \<in> set (trace s) \<Longrightarrow> opened p s"
    and "ordered K (trace s)"
  shows "inv K tgt s"
  unfolding inv_def using assms by blast

lemma invD:
  assumes "inv K tgt s"
  shows "stopped s p \<Longrightarrow> queue s p = []"
    and "drained_count p (trace s) = (if stopped s p then 1 else 0)"
    and "\<not> stopped s p \<Longrightarrow> tl_sub s p = Some (next_task tgt p) \<and> tl_buf s p \<noteq> None"
    and "set (K p) \<subseteq> fst ` set (queue s p) \<union> done_keys p (trace s)"
    and "ProcessPhase p \<in> set (ticks s) \<Longrightarrow> opened p s"
    and "Invoke p k n \<in> set (trace s) \<Longrightarrow> opened p s"
    and "ordered K (trace s)"
  using assms unfolding inv_def by blast+

lemma drained_in_trace: "drained_count p tr = 1 \<Longrightarrow> Drained p \<in> set tr"
proof (rule ccontr)
  assume a: "drained_count p tr = 1" and "Drained p \<notin> set tr"
  then have "filter (\<lambda>e. e = Drained p) tr = []" by (auto simp: filter_empty_conv)
  with a show False by (simp add: drained_count_def)
qed

text \<open>Plain entries, and fields the invariant does not read.\<close>

lemma inv_plain:
  assumes i: "inv K tgt s" and pl: "list_all is_plain es"
    and eq: "queue s' = queue s" "stopped s' = stopped s" "tl_sub s' = tl_sub s"
            "trace s' = trace s @ es"
    and buf: "\<And>p. tl_buf s p \<noteq> None \<Longrightarrow> tl_buf s' p \<noteq> None"
    and tk: "\<And>p. ProcessPhase p \<in> set (ticks s') \<Longrightarrow>
                 ProcessPhase p \<in> set (ticks s) \<or> pidx p = 0"
  shows "inv K tgt s'"
proof (rule invI)
  fix p
  show "stopped s' p \<Longrightarrow> queue s' p = []" using invD(1)[OF i, of p] by (simp add: eq)
  show "drained_count p (trace s') = (if stopped s' p then 1 else 0)"
    using invD(2)[OF i, of p] by (simp add: eq plain_facts[OF pl])
  show "\<not> stopped s' p \<Longrightarrow> tl_sub s' p = Some (next_task tgt p) \<and> tl_buf s' p \<noteq> None"
    using invD(3)[OF i, of p] buf[of p] by (simp add: eq)
  show "set (K p) \<subseteq> fst ` set (queue s' p) \<union> done_keys p (trace s')"
    using invD(4)[OF i, of p] by (simp add: eq plain_facts[OF pl])
  show "ProcessPhase p \<in> set (ticks s') \<Longrightarrow> opened p s'"
    using invD(5)[OF i, of p] tk[of p] by (auto simp add: eq opened_def)
  show "opened p s'" if "Invoke p k n \<in> set (trace s')" for k n
    using invD(6)[OF i, of p k n] that plain_facts(3)[OF pl, of p k n "trace s"]
    by (simp add: eq opened_def)
next
  show "ordered K (trace s')" using invD(7)[OF i] ordered_append_plain[OF _ pl] by (simp add: eq)
qed

lemma inv_invoke:
  assumes i: "inv K tgt s" and op: "opened p s"
    and eq: "queue s' = queue s" "stopped s' = stopped s" "tl_sub s' = tl_sub s"
            "tl_buf s' = tl_buf s" "ticks s' = ticks s"
            "trace s' = trace s @ [Invoke p k n]"
  shows "inv K tgt s'"
proof (rule invI)
  fix q
  show "stopped s' q \<Longrightarrow> queue s' q = []" using invD(1)[OF i, of q] by (simp add: eq)
  show "drained_count q (trace s') = (if stopped s' q then 1 else 0)"
    using invD(2)[OF i, of q] by (simp add: eq drained_count_def)
  show "\<not> stopped s' q \<Longrightarrow> tl_sub s' q = Some (next_task tgt q) \<and> tl_buf s' q \<noteq> None"
    using invD(3)[OF i, of q] by (simp add: eq)
  show "set (K q) \<subseteq> fst ` set (queue s' q) \<union> done_keys q (trace s')"
    using invD(4)[OF i, of q] by (auto simp add: eq done_keys_def)
  show "ProcessPhase q \<in> set (ticks s') \<Longrightarrow> opened q s'"
    using invD(5)[OF i, of q] by (simp add: eq opened_def)
  show "opened q s'" if "Invoke q k' n' \<in> set (trace s')" for k' n'
    using invD(6)[OF i, of q k' n'] that op by (auto simp add: eq opened_def)
next
  have "start_allowed K (trace s) (Invoke p k n)"
    unfolding start_allowed_def
  proof (intro allI impI)
    fix q k' n' p' assume "Invoke p k n = Invoke q k' n'" and lt: "pidx p' < pidx q"
    then have "q = p" by simp
    with lt op have st: "stopped s p'" by (simp add: opened_def)
    from invD(2)[OF i, of p'] st have "Drained p' \<in> set (trace s)"
      by (simp add: drained_in_trace)
    moreover from invD(1)[OF i st] invD(4)[OF i, of p']
    have "set (K p') \<subseteq> done_keys p' (trace s)" by simp
    ultimately show "Drained p' \<in> set (trace s) \<and> set (K p') \<subseteq> done_keys p' (trace s)" ..
  qed
  then show "ordered K (trace s')" using invD(7)[OF i] by (simp add: eq ordered_snoc)
qed

lemma inv_done:
  assumes i: "inv K tgt s" and pl: "list_all is_plain es"
    and eq: "queue s' = (queue s)(p := delete_key key (queue s p))" "stopped s' = stopped s"
            "tl_sub s' = tl_sub s" "tl_buf s' = tl_buf s" "ticks s' = ticks s"
            "trace s' = trace s @ DoneCalled p key tid # es"
  shows "inv K tgt s'"
proof (rule invI)
  fix q
  have dc: "drained_count q (trace s') = drained_count q (trace s)"
    using plain_facts(1)[OF pl, of q "trace s @ [DoneCalled p key tid]"]
    by (simp add: eq drained_count_def)
  have dk: "done_keys q (trace s) \<subseteq> done_keys q (trace s')"
    by (auto simp: eq done_keys_def)
  have dk2: "key = Some k \<Longrightarrow> k \<in> done_keys p (trace s')" for k
    by (auto simp: eq done_keys_def)
  show "stopped s' q \<Longrightarrow> queue s' q = []"
    using invD(1)[OF i, of q] by (auto simp add: eq delete_key_def map_delete_def split: option.splits)
  show "drained_count q (trace s') = (if stopped s' q then 1 else 0)"
    using invD(2)[OF i, of q] dc by (simp add: eq)
  show "\<not> stopped s' q \<Longrightarrow> tl_sub s' q = Some (next_task tgt q) \<and> tl_buf s' q \<noteq> None"
    using invD(3)[OF i, of q] by (simp add: eq)
  show "set (K q) \<subseteq> fst ` set (queue s' q) \<union> done_keys q (trace s')"
  proof
    fix x assume "x \<in> set (K q)"
    with invD(4)[OF i, of q] have "x \<in> fst ` set (queue s q) \<or> x \<in> done_keys q (trace s)" by auto
    then show "x \<in> fst ` set (queue s' q) \<union> done_keys q (trace s')"
    proof
      assume "x \<in> done_keys q (trace s)"
      with dk show ?thesis by auto
    next
      assume a: "x \<in> fst ` set (queue s q)"
      show ?thesis
      proof (cases "q = p \<and> key = Some x")
        case True
        with dk2[of x] show ?thesis by simp
      next
        case False
        with a have "x \<in> fst ` set (queue s' q)"
          by (auto simp: eq delete_key_def map_delete_def split: option.splits)
        then show ?thesis by simp
      qed
    qed
  qed
  show "ProcessPhase q \<in> set (ticks s') \<Longrightarrow> opened q s'"
    using invD(5)[OF i, of q] by (simp add: eq opened_def)
  have "Invoke q k' n' \<in> set (trace s') \<longleftrightarrow> Invoke q k' n' \<in> set (trace s)" for k' n'
    using plain_facts(3)[OF pl, of q k' n' "trace s @ [DoneCalled p key tid]"] by (simp add: eq)
  then show "opened q s'" if "Invoke q k' n' \<in> set (trace s')" for k' n'
    using invD(6)[OF i, of q k' n'] that by (simp add: eq opened_def)
next
  have "ordered K (trace s @ [DoneCalled p key tid])"
    using invD(7)[OF i] by (simp add: ordered_snoc start_allowed_def)
  from ordered_append_plain[OF this pl] show "ordered K (trace s')" by (simp add: eq)
qed

lemma stopped_subjComplete: "stopped s q \<Longrightarrow> stopped (subjComplete p s) q"
  by (simp add: subjComplete_def Let_def split: option.splits)

lemma stopped_clearIf: "stopped (clearIf H i s) = stopped s"
  by (simp add: clearIf_def clearInterval_def split: option.splits)

lemma stopped_mono:
  "stopped s q \<Longrightarrow> stopped (processQueueItem H p s) q"
  "stopped s q \<Longrightarrow> stopped (doneCallback H p key tid s) q"
  "stopped s q \<Longrightarrow> stopped (subjNext H p v s) q"
  "stopped s q \<Longrightarrow> stopped (notify H n p s) q"
proof (induct H p s and H p key tid s and H p v s and H n p s
       rule: processQueueItem_doneCallback_subjNext_notify.induct)
  case (1 H p s)
  then show ?case
    by (subst processQueueItem.simps)
       (auto split: list.splits option.splits behaviour.splits simp: setTimeout_def)
next
  case (2 H p key tid s)
  then show ?case
    by (subst doneCallback.simps) (simp add: Let_def stopped_subjComplete stopped_clearIf)
next
  case (3 H p v s)
  then show ?case by (subst subjNext.simps) simp
next
  case (4 H n p s)
  then show ?case by (subst notify.simps) (simp split: nat.splits)
qed

lemma opened_mono:
  assumes "opened p s" shows "opened p (processQueueItem H q s)"
    and "opened p (doneCallback H q key tid s)"
    and "opened p (subjNext H q v s)" and "opened p (notify H n q s)"
    and "opened p (subjComplete q s)"
  using assms unfolding opened_def
  by (simp_all add: stopped_mono stopped_subjComplete)

lemma next_task_idx:
  assumes "next_task tgt p = ProcessPhase q" shows "pidx q = Suc (pidx p)"
proof (cases p)
  case FrameworkBeforeBoot
  with assms show ?thesis by (auto simp: next_task_def)
next
  case Before
  with assms show ?thesis by (auto simp: next_task_def)
next
  case After
  with assms show ?thesis by (auto simp: next_task_def)
next
  case FrameworkAfterBoot
  with assms show ?thesis by (auto simp: next_task_def)
qed

lemma pidx_inj: "pidx p = pidx q \<Longrightarrow> p = q"
  by (cases p; cases q; simp)

lemma inv_complete:
  assumes i: "inv K tgt s" and op: "opened p s" and em: "queue s p = []"
  shows "inv K tgt (subjComplete p s)"
proof (cases "stopped s p")
  case True
  then show ?thesis using i by (simp add: subjComplete_def)
next
  case False
  from invD(3)[OF i False] obtain v where
    ts: "tl_sub s p = Some (next_task tgt p)" and tb: "tl_buf s p = Some v" by auto
  let ?s' = "subjComplete p s"
  have eq: "queue ?s' = queue s" "stopped ?s' = (stopped s)(p := True)"
    "tl_sub ?s' = (tl_sub s)(p := None)" "tl_buf ?s' = tl_buf s"
    "ticks ?s' = ticks s @ [next_task tgt p]" "trace ?s' = trace s @ [Drained p]"
    using False ts tb by (simp_all add: subjComplete_def)
  show ?thesis
  proof (rule invI)
    fix q
    show "stopped ?s' q \<Longrightarrow> queue ?s' q = []"
      using invD(1)[OF i, of q] em by (auto simp: eq split: if_splits)
    show "drained_count q (trace ?s') = (if stopped ?s' q then 1 else 0)"
      using invD(2)[OF i, of q] False by (auto simp: eq drained_count_def)
    show "\<not> stopped ?s' q \<Longrightarrow> tl_sub ?s' q = Some (next_task tgt q) \<and> tl_buf ?s' q \<noteq> None"
      using invD(3)[OF i, of q] by (auto simp: eq split: if_splits)
    show "set (K q) \<subseteq> fst ` set (queue ?s' q) \<union> done_keys q (trace ?s')"
      using invD(4)[OF i, of q] by (auto simp: eq done_keys_def)
    show "opened q ?s'" if "ProcessPhase q \<in> set (ticks ?s')"
    proof (cases "ProcessPhase q \<in> set (ticks s)")
      case True
      from invD(5)[OF i True] show ?thesis by (rule opened_mono(5))
    next
      case False
      with that have "next_task tgt p = ProcessPhase q" by (simp add: eq)
      from next_task_idx[OF this] op show ?thesis
        by (auto simp: opened_def eq less_Suc_eq dest: pidx_inj)
    qed
    show "opened q ?s'" if "Invoke q k n \<in> set (trace ?s')" for k n
    proof -
      from that have "Invoke q k n \<in> set (trace s)" by (simp add: eq)
      from invD(6)[OF i this] show ?thesis by (rule opened_mono(5))
    qed
  next
    show "ordered K (trace ?s')"
      using invD(7)[OF i] by (simp add: eq ordered_snoc start_allowed_def)
  qed
qed

lemma clearIf_fields:
  "queue (clearIf H i s) = queue s" "stopped (clearIf H i s) = stopped s"
  "tl_sub (clearIf H i s) = tl_sub s" "tl_buf (clearIf H i s) = tl_buf s"
  "ticks (clearIf H i s) = ticks s" "proc_subs (clearIf H i s) = proc_subs s"
  "nextTimerId (clearIf H i s) = nextTimerId s"
  "\<exists>es. trace (clearIf H i s) = trace s @ es \<and> list_all is_plain es"
  by (auto simp: clearIf_def clearInterval_def split: option.splits)

lemma inv_mutual:
  "inv K tgt s \<Longrightarrow> opened p s \<Longrightarrow> inv K tgt (processQueueItem H p s)"
  "inv K tgt s \<Longrightarrow> opened p s \<Longrightarrow> inv K tgt (doneCallback H p key tid s)"
  "inv K tgt s \<Longrightarrow> opened p s \<Longrightarrow> inv K tgt (subjNext H p v s)"
  "inv K tgt s \<Longrightarrow> opened p s \<Longrightarrow> inv K tgt (notify H n p s)"
proof (induct H p s and H p key tid s and H p v s and H n p s
       rule: processQueueItem_doneCallback_subjNext_notify.induct)
  case (1 H p s)
  note i = \<open>inv K tgt s\<close> and op = \<open>opened p s\<close>
  show ?case
  proof (cases "queue s p")
    case Nil
    then show ?thesis using i by (subst processQueueItem.simps) simp
  next
    case (Cons kv rest)
    obtain k it where kv: "kv = (k, it)" by (cases kv)
    let ?w = "Watchdog (part 0 (js_split k)) (part 1 (js_split k)) (doneCheckTimeout it)"
    let ?s1 = "(setTimeout ?w s)\<lparr>trace := trace s @ [Invoke p k (nextTimerId s)]\<rparr>"
    have i1: "inv K tgt ?s1"
      by (rule inv_invoke[OF i op]) (simp_all add: setTimeout_def)
    have op1: "opened p ?s1" using op by (simp add: opened_def setTimeout_def)
    show ?thesis
    proof (cases "resolveH H (itarget it) (methodName it)")
      case None
      have "inv K tgt (s\<lparr>trace := trace s @
              [Log (MissingMethodLog (part 0 (js_split k)) (part 1 (js_split k)))]\<rparr>)"
        by (rule inv_plain[OF i, where es = "[Log (MissingMethodLog (part 0 (js_split k)) (part 1 (js_split k)))]"])
           simp_all
      then show ?thesis using Cons kv None by (subst processQueueItem.simps) simp
    next
      case (Some b)
      show ?thesis
      proof (cases b)
        case Defers
        then show ?thesis using Cons kv Some i1 by (subst processQueueItem.simps) simp
      next
        case CallsDoneSync
        from 1(1)[OF Cons kv[symmetric] Some CallsDoneSync i1 op1]
        show ?thesis using Cons kv Some CallsDoneSync by (subst processQueueItem.simps) simp
      qed
    qed
  qed
next
  case (2 H p key tid s)
  note i = \<open>inv K tgt s\<close> and op = \<open>opened p s\<close>
  let ?s0 = "s\<lparr>trace := trace s @ [DoneCalled p key tid]\<rparr>"
  let ?s2 = "(clearIf H tid ?s0)\<lparr>queue := (queue s)(p := delete_key key (queue s p))\<rparr>"
  let ?s3 = "subjNext H p (length (delete_key key (queue s p))) ?s2"
  from clearIf_fields(8)[of H tid ?s0] obtain es where
    es: "trace (clearIf H tid ?s0) = trace ?s0 @ es" "list_all is_plain es" by blast
  have i2: "inv K tgt ?s2"
    by (rule inv_done[OF i es(2), where p = p and key = key and tid = tid])
       (simp_all add: clearIf_fields es(1))
  have op2: "opened p ?s2" using op by (simp add: opened_def clearIf_fields)
  from 2(1)[OF i2 op2] have i3: "inv K tgt ?s3" .
  have op3: "opened p ?s3" using op2 by (rule opened_mono)
  have "inv K tgt (if length (queue ?s3 p) = 0 then subjComplete p ?s3 else ?s3)"
    using i3 inv_complete[OF i3 op3] by simp
  then show ?case by (subst doneCallback.simps) (simp add: Let_def)
next
  case (3 H p v s)
  note i = \<open>inv K tgt s\<close> and op = \<open>opened p s\<close>
  let ?s1 = "s\<lparr>tl_buf := (tl_buf s)(p := if tl_sub s p = None then tl_buf s p else Some v)\<rparr>"
  have i1: "inv K tgt ?s1"
    by (rule inv_plain[OF i, where es = "[]"]) auto
  have op1: "opened p ?s1" using op by (simp add: opened_def)
  show ?case
  proof (cases "stopped s p")
    case True
    then show ?thesis using i by (subst subjNext.simps) simp
  next
    case False
    show ?thesis
    proof (cases "v = 0")
      case True
      then show ?thesis using False i1 by (subst subjNext.simps) simp
    next
      case nz: False
      from 3(1)[OF False nz i1 op1] show ?thesis using False nz by (subst subjNext.simps) simp
    qed
  qed
next
  case (4 H n p s)
  note i = \<open>inv K tgt s\<close> and op = \<open>opened p s\<close>
  show ?case
  proof (cases n)
    case 0
    then show ?thesis using i by (subst notify.simps) simp
  next
    case (Suc m)
    show ?thesis
    proof (cases "stopped s p")
      case True
      then show ?thesis using i Suc by (subst notify.simps) simp
    next
      case False
      from 4(1)[OF Suc False i op] have a: "inv K tgt (processQueueItem H p s)" .
      have b: "opened p (processQueueItem H p s)" using op by (rule opened_mono)
      from 4(2)[OF Suc False a b] show ?thesis using Suc False by (subst notify.simps) simp
    qed
  qed
qed

lemma inv_processQueue:
  assumes i: "inv K tgt s" and op: "opened p s"
  shows "inv K tgt (processQueue H p s)"
proof -
  let ?s1 = "s\<lparr>proc_subs := (proc_subs s)(p := proc_subs s p + 1)\<rparr>"
  have i1: "inv K tgt ?s1" by (rule inv_plain[OF i, where es = "[]"]) simp_all
  have op1: "opened p ?s1" using op by (simp add: opened_def)
  show ?thesis
    using inv_mutual(1)[OF i op] inv_mutual(1)[OF i1 op1] inv_mutual(2)[OF i op]
    by (simp add: processQueue_def)
qed

lemma add_fold: "foldl (\<lambda>st queueItem. add queueItem st) s items = s\<lparr>queue := foldl add_q (queue s) items\<rparr>"
  by (induction items arbitrary: s) (simp_all add: add_def add_q_def)

lemma subjNext_nosubs:
  "proc_subs s p = 0 \<Longrightarrow> \<not> stopped s p \<Longrightarrow>
     subjNext H p v s = s\<lparr>tl_buf := (tl_buf s)(p := if tl_sub s p = None then tl_buf s p else Some v)\<rparr>"
  by (subst subjNext.simps, subst notify.simps) simp

lemma bootstrap_fresh:
  assumes "fresh md s"
  shows "queue (bootstrap H tgt s) = foldl add_q (\<lambda>p. []) md"
    and "stopped (bootstrap H tgt s) = (\<lambda>p. False)"
    and "tl_sub (bootstrap H tgt s) = (\<lambda>p. Some (next_task tgt p))"
    and "tl_buf (bootstrap H tgt s) p \<noteq> None"
    and "ticks (bootstrap H tgt s) = []"
    and "trace (bootstrap H tgt s) = []"
proof -
  from assms obtain h0 subs where s: "s = (init md h0)\<lparr>fin_subs := subs\<rparr>" by (auto simp: fresh_def)
  let ?Q = "foldl add_q (\<lambda>p. []) md"
  let ?s0 = "subscribeStarting (subscribeCounts tgt (resolveMetaDataAndAdd s))"
  have s0: "?s0 = s\<lparr>queue := ?Q, tl_sub := (\<lambda>p. Some (next_task tgt p)), start_sub := True\<rparr>"
    by (simp add: s init_def resolveMetaDataAndAdd_def add_fold subscribeStarting_def subscribeCounts_def)
  define b1 where "b1 = (\<lambda>p::phase. None :: nat option)(FrameworkBeforeBoot := Some (length (?Q FrameworkBeforeBoot)))"
  define b2 where "b2 = b1(Before := Some (length (?Q Before)))"
  define b3 where "b3 = b2(After := Some (length (?Q After)))"
  define b4 where "b4 = b3(FrameworkAfterBoot := Some (length (?Q FrameworkAfterBoot)))"
  have "setupQueueCounts H ?s0 = ?s0\<lparr>tl_buf := b4\<rparr>"
    unfolding s0 b4_def b3_def b2_def b1_def
    by (simp add: setupQueueCounts_def Let_def subjNext_nosubs s init_def)
  then have bs: "bootstrap H tgt s = (startLoading (?s0\<lparr>tl_buf := b4\<rparr>))\<lparr>isBootstrapped := True\<rparr>"
    by (simp add: bootstrap_def s init_def)
  show "queue (bootstrap H tgt s) = ?Q" "stopped (bootstrap H tgt s) = (\<lambda>p. False)"
    "tl_sub (bootstrap H tgt s) = (\<lambda>p. Some (next_task tgt p))"
    "ticks (bootstrap H tgt s) = []" "trace (bootstrap H tgt s) = []"
    unfolding bs s0 by (simp_all add: startLoading_def setTimeout_def s init_def)
  have "tl_buf (bootstrap H tgt s) = b4"
    unfolding bs s0 by (simp add: startLoading_def setTimeout_def)
  then show "tl_buf (bootstrap H tgt s) p \<noteq> None"
    by (cases p) (simp_all add: b4_def b3_def b2_def b1_def)
qed

lemma ordered_Nil: "ordered K []"
  by (simp add: ordered_def)

lemma inv_bootstrap:
  assumes "fresh md s"
  shows "inv (registered md) tgt (bootstrap H tgt s)"
proof (rule invI)
  note b = bootstrap_fresh[OF assms, of H tgt]
  fix p
  show "stopped (bootstrap H tgt s) p \<Longrightarrow> queue (bootstrap H tgt s) p = []" by (simp add: b)
  show "drained_count p (trace (bootstrap H tgt s)) = (if stopped (bootstrap H tgt s) p then 1 else 0)"
    by (simp add: b drained_count_def)
  show "\<not> stopped (bootstrap H tgt s) p \<Longrightarrow>
     tl_sub (bootstrap H tgt s) p = Some (next_task tgt p) \<and> tl_buf (bootstrap H tgt s) p \<noteq> None"
    using b(4) by (simp add: b(3))
  show "set (registered md p) \<subseteq> fst ` set (queue (bootstrap H tgt s) p) \<union>
     done_keys p (trace (bootstrap H tgt s))"
    by (simp add: b registered_def)
  show "ProcessPhase p \<in> set (ticks (bootstrap H tgt s)) \<Longrightarrow> opened p (bootstrap H tgt s)"
    by (simp add: b)
  show "opened p (bootstrap H tgt s)" if "Invoke p k n \<in> set (trace (bootstrap H tgt s))" for k n
    using that by (simp add: b)
next
  show "ordered (registered md) (trace (bootstrap H tgt s))"
    by (simp add: bootstrap_fresh[OF assms] ordered_Nil)
qed

lemma fresh_fields:
  assumes "fresh md s"
  shows "\<not> isBootstrapped s" "timers s = []" "ticks s = []" "trace s = []"
    "queue s p = []" "\<not> stopped s p"
  using assms by (auto simp: fresh_def init_def)

lemma inv_fireTimer:
  assumes i: "inv K tgt s"
  shows "inv K tgt (fireTimer H n s)"
proof (cases "map_of (timers s) n")
  case None
  then show ?thesis using i by (simp add: fireTimer_def)
next
  case (Some t)
  let ?s1 = "s\<lparr>timers := filter (\<lambda>x. fst x \<noteq> n) (timers s)\<rparr>"
  show ?thesis
  proof (cases t)
    case WarmUp
    have "inv K tgt (clearTimeout n (startingFire ?s1))"
      by (rule inv_plain[OF i, where es = "[Log StartBootingLog, ClearTimeoutCall n]"])
         (auto simp: clearTimeout_def startingFire_def Let_def split: if_splits)
    then show ?thesis using Some WarmUp by (simp add: fireTimer_def)
  next
    case (Watchdog m meth d)
    have "inv K tgt (setupDoneTimeout H m meth d n ?s1)"
      by (rule inv_plain[OF i, where es = "[Log (ForgottenDoneLog m meth), Log (IncreaseTimeoutLog d), ClearIntervalCall n]"])
         (auto simp: setupDoneTimeout_def clearInterval_def)
    then show ?thesis using Some Watchdog by (simp add: fireTimer_def)
  qed
qed

lemma inv_runTask:
  assumes i: "inv K tgt s" and tk: "ticks s = t # ts"
  shows "inv K tgt (runTask H t (s\<lparr>ticks := ts\<rparr>))"
proof -
  let ?s1 = "s\<lparr>ticks := ts\<rparr>"
  have i1: "inv K tgt ?s1"
    by (rule inv_plain[OF i, where es = "[]"]) (auto simp: tk)
  show ?thesis
  proof (cases t)
    case (ProcessPhase p)
    with tk invD(5)[OF i, of p] have "opened p s" by simp
    then have "opened p ?s1" by (simp add: opened_def)
    from inv_processQueue[OF i1 this] show ?thesis using ProcessPhase by (simp add: runTask_def)
  next
    case (FinishUp x)
    have "inv K tgt (containerResolve x (finishUpBooting x ?s1))"
      by (rule inv_plain[OF i1, where es = "[]"])
         (auto simp: containerResolve_def finishUpBooting_def)
    then show ?thesis using FinishUp by (simp add: runTask_def)
  next
    case FireFinish
    have "inv K tgt (finComplete (finNext True ?s1))"
      by (rule inv_plain[OF i1, where es = "if fin_stopped s then [] else map (\<lambda>cb. CbInvoked cb [True]) (fin_subs s)"])
         (auto simp: finComplete_def finNext_def list_all_iff split: if_splits)
    then show ?thesis using FireFinish by (simp add: runTask_def)
  qed
qed

lemma step_good:
  assumes g: "good md s"
  shows "good md (step H s e)"
proof (cases "fresh md s")
  case True
  note f = fresh_fields[OF True]
  show ?thesis
  proof (cases e)
    case (Bootstrap tgt)
    then show ?thesis using inv_bootstrap[OF True, of tgt H]
      by (auto simp: good_def step_def bootstrap_isBootstrapped)
  next
    case (DoneReg c)
    from True obtain h0 subs where "s = (init md h0)\<lparr>fin_subs := subs\<rparr>" by (auto simp: fresh_def)
    then have "fresh md (done_reg c s)"
      by (auto simp: fresh_def done_reg_def init_def)
    then show ?thesis using DoneReg by (simp add: good_def step_def)
  next
    case (TimerFire n)
    then show ?thesis using g f by (simp add: step_def fireTimer_def)
  next
    case Tick
    then show ?thesis using g f by (simp add: step_def)
  next
    case (ItemDone p k n)
    then show ?thesis using g f by (simp add: step_def)
  qed
next
  case False
  with g obtain tgt where b: "isBootstrapped s" and i: "inv (registered md) tgt s"
    by (auto simp: good_def)
  have b': "isBootstrapped (step H s e)" using b by (rule step_isBootstrapped)
  have "inv (registered md) tgt (step H s e)"
  proof (cases e)
    case (Bootstrap x)
    then show ?thesis using b i by (simp add: step_def bootstrap_def)
  next
    case (DoneReg c)
    have "inv (registered md) tgt (done_reg c s)"
      by (rule inv_plain[OF i, where es = "[]"]) (auto simp: done_reg_def split: if_splits)
    then show ?thesis using DoneReg by (simp add: step_def)
  next
    case (TimerFire n)
    then show ?thesis using inv_fireTimer[OF i] by (simp add: step_def)
  next
    case Tick
    show ?thesis
    proof (cases "ticks s")
      case Nil
      then show ?thesis using Tick i by (simp add: step_def)
    next
      case (Cons t ts)
      from inv_runTask[OF i Cons] show ?thesis using Tick Cons by (simp add: step_def)
    qed
  next
    case (ItemDone p k n)
    show ?thesis
    proof (cases "Invoke p k n \<in> set (trace s)")
      case True
      from inv_mutual(2)[OF i invD(6)[OF i True]] show ?thesis using ItemDone True
        by (simp add: step_def)
    next
      case False
      then show ?thesis using ItemDone i by (simp add: step_def)
    qed
  qed
  with b' show ?thesis by (auto simp: good_def)
qed

lemma run_good: "good md s \<Longrightarrow> good md (run H s es)"
  unfolding run_def by (induction es arbitrary: s) (simp_all add: step_good)

lemma init_good: "good md (init md h0)"
proof -
  have "init md h0 = (init md h0)\<lparr>fin_subs := []\<rparr>" by (simp add: init_def)
  then have "fresh md (init md h0)" unfolding fresh_def by blast
  then show ?thesis by (simp add: good_def)
qed

lemma reach_good: "good md (run H (init md h0) es)"
  by (rule run_good) (rule init_good)

lemma emptied_mutual:
  "queue (processQueueItem H p s) q = [] \<Longrightarrow> queue s q = [] \<or> stopped (processQueueItem H p s) q"
  "queue (doneCallback H p key tid s) q = [] \<Longrightarrow> queue s q = [] \<or> stopped (doneCallback H p key tid s) q"
  "queue (subjNext H p v s) q = [] \<Longrightarrow> queue s q = [] \<or> stopped (subjNext H p v s) q"
  "queue (notify H n p s) q = [] \<Longrightarrow> queue s q = [] \<or> stopped (notify H n p s) q"
proof (induct H p s and H p key tid s and H p v s and H n p s
       rule: processQueueItem_doneCallback_subjNext_notify.induct)
  case (1 H p s)
  show ?case
  proof (cases "queue s p")
    case Nil
    then show ?thesis using 1(2) by (subst (asm) processQueueItem.simps) simp
  next
    case (Cons kv rest)
    obtain k it where kv: "kv = (k, it)" by (cases kv)
    show ?thesis
    proof (cases "resolveH H (itarget it) (methodName it)")
      case None
      then show ?thesis using Cons kv 1(2) by (subst (asm) processQueueItem.simps) simp
    next
      case (Some b)
      show ?thesis
      proof (cases b)
        case Defers
        then show ?thesis using Cons kv Some 1(2)
          by (subst (asm) processQueueItem.simps) (simp add: setTimeout_def)
      next
        case CallsDoneSync
        let ?s1 = "(setTimeout (Watchdog (part 0 (js_split k)) (part 1 (js_split k)) (doneCheckTimeout it)) s)
                     \<lparr>trace := trace s @ [Invoke p k (nextTimerId s)]\<rparr>"
        have eq: "processQueueItem H p s = doneCallback H p (Some k) (Some (nextTimerId s)) ?s1"
          using Cons kv Some CallsDoneSync by (subst processQueueItem.simps) simp
        from 1(1)[OF Cons kv[symmetric] Some CallsDoneSync] 1(2)
        show ?thesis unfolding eq by (simp add: setTimeout_def)
      qed
    qed
  qed
next
  case (2 H p key tid s)
  let ?s2 = "(clearIf H tid (s\<lparr>trace := trace s @ [DoneCalled p key tid]\<rparr>))
               \<lparr>queue := (queue s)(p := delete_key key (queue s p))\<rparr>"
  let ?s3 = "subjNext H p (length (delete_key key (queue s p))) ?s2"
  have eq: "doneCallback H p key tid s = (if length (queue ?s3 p) = 0 then subjComplete p ?s3 else ?s3)"
    by (subst doneCallback.simps) (simp add: Let_def)
  show ?case
  proof (cases "q = p")
    case True
    have "stopped (subjComplete p ?s3) p" by (simp add: subjComplete_def Let_def split: option.splits)
    then show ?thesis using 2(2) True unfolding eq by (auto split: if_splits)
  next
    case False
    from 2(2) have "queue ?s3 q = []" unfolding eq by (simp add: queue_subjComplete split: if_splits)
    from 2(1)[OF this] False have "queue s q = [] \<or> stopped ?s3 q" by (simp add: queue_clearIf)
    then show ?thesis unfolding eq by (auto simp: stopped_subjComplete)
  qed
next
  case (3 H p v s)
  show ?case
  proof (cases "stopped s p \<or> v = 0")
    case True
    then show ?thesis using 3(2) by (subst (asm) subjNext.simps) (auto split: if_splits)
  next
    case False
    let ?s1 = "s\<lparr>tl_buf := (tl_buf s)(p := if tl_sub s p = None then tl_buf s p else Some v)\<rparr>"
    have eq: "subjNext H p v s = notify H (proc_subs s p) p ?s1"
      using False by (subst subjNext.simps) simp
    from False 3(1) 3(2) show ?thesis unfolding eq by simp
  qed
next
  case (4 H n p s)
  show ?case
  proof (cases n)
    case 0
    then show ?thesis using 4(3) by (subst (asm) notify.simps) simp
  next
    case (Suc m)
    show ?thesis
    proof (cases "stopped s p")
      case True
      then show ?thesis using Suc 4(3) by (subst (asm) notify.simps) simp
    next
      case False
      have eq: "notify H n p s = notify H m p (processQueueItem H p s)"
        using Suc False by (subst notify.simps) simp
      from 4(3) have "queue (notify H m p (processQueueItem H p s)) q = []" unfolding eq .
      from 4(2)[OF Suc False this] show ?thesis
      proof
        assume "queue (processQueueItem H p s) q = []"
        from 4(1)[OF Suc False this] show ?thesis
          unfolding eq by (auto simp: stopped_mono)
      next
        assume "stopped (notify H m p (processQueueItem H p s)) q"
        then show ?thesis unfolding eq by simp
      qed
    qed
  qed
qed

lemma emptied_processQueue:
  "queue (processQueue H p s) q = [] \<Longrightarrow> queue s q = [] \<or> stopped (processQueue H p s) q"
  using emptied_mutual(1)[of H p s q] emptied_mutual(2)[of H p None None s q]
    emptied_mutual(1)[of H p "s\<lparr>proc_subs := (proc_subs s)(p := proc_subs s p + 1)\<rparr>" q]
  by (simp add: processQueue_def split: if_splits)

lemma queue_fireTimer: "queue (fireTimer H n s) = queue s"
  by (simp add: fireTimer_def Let_def clearTimeout_def startingFire_def setupDoneTimeout_def
        clearInterval_def split: option.splits timer_task.splits)

lemma emptied_step:
  assumes g: "good md s" and ne: "queue s q \<noteq> []" and em: "queue (step H s e) q = []"
  shows "stopped (step H s e) q"
proof (cases e)
  case (Bootstrap x)
  from g ne have "isBootstrapped s" using fresh_fields(5)[of md s q] by (auto simp: good_def)
  then show ?thesis using Bootstrap ne em by (simp add: step_def bootstrap_def)
next
  case (DoneReg c)
  then show ?thesis using ne em by (simp add: step_def done_reg_def split: if_splits)
next
  case (TimerFire n)
  then show ?thesis using ne em by (simp add: step_def queue_fireTimer)
next
  case Tick
  show ?thesis
  proof (cases "ticks s")
    case Nil
    then show ?thesis using Tick ne em by (simp add: step_def)
  next
    case (Cons t ts)
    show ?thesis
    proof (cases t)
      case (ProcessPhase p)
      then show ?thesis using Tick Cons ne em emptied_processQueue[of H p "s\<lparr>ticks := ts\<rparr>" q]
        by (simp add: step_def runTask_def)
    next
      case (FinishUp x)
      then show ?thesis using Tick Cons ne em
        by (simp add: step_def runTask_def containerResolve_def finishUpBooting_def)
    next
      case FireFinish
      then show ?thesis using Tick Cons ne em
        by (simp add: step_def runTask_def finComplete_def finNext_def split: if_splits)
    qed
  qed
next
  case (ItemDone p k n)
  then show ?thesis using ne em emptied_mutual(2)[of H p "Some k" "Some n" s q]
    by (simp add: step_def split: if_splits)
qed

lemma good_count:
  assumes "good md s"
  shows "drained_count p (trace s) = (if stopped s p then 1 else 0)"
proof (cases "fresh md s")
  case True
  from fresh_fields(4,6)[OF True] show ?thesis by (simp add: drained_count_def)
next
  case False
  with assms obtain tgt where "inv (registered md) tgt s" by (auto simp: good_def)
  from invD(2)[OF this] show ?thesis .
qed

lemma good_stopped_empty:
  assumes "good md s" and "stopped s p"
  shows "queue s p = []"
proof (cases "fresh md s")
  case True
  from fresh_fields(5)[OF True] show ?thesis .
next
  case False
  with assms obtain tgt where "inv (registered md) tgt s" by (auto simp: good_def)
  from invD(1)[OF this assms(2)] show ?thesis .
qed

lemma done_empty_stops:
  assumes "queue (doneCallback H p key tid s) p = []"
  shows "stopped (doneCallback H p key tid s) p"
proof -
  let ?s2 = "(clearIf H tid (s\<lparr>trace := trace s @ [DoneCalled p key tid]\<rparr>))
               \<lparr>queue := (queue s)(p := delete_key key (queue s p))\<rparr>"
  let ?s3 = "subjNext H p (length (delete_key key (queue s p))) ?s2"
  have eq: "doneCallback H p key tid s = (if length (queue ?s3 p) = 0 then subjComplete p ?s3 else ?s3)"
    by (subst doneCallback.simps) (simp add: Let_def)
  have "stopped (subjComplete p ?s3) p" by (simp add: subjComplete_def Let_def split: option.splits)
  then show ?thesis using assms unfolding eq by (auto split: if_splits)
qed

lemma empty_processQueue_stops:
  assumes "queue s p = []"
  shows "stopped (processQueue H p s) p"
proof -
  have eq: "processQueue H p s = doneCallback H p None None s"
    using assms by (simp add: processQueue_def)
  have "set (queue (doneCallback H p None None s) p) \<subseteq> set (delete_key None (queue s p))"
    using queue_shrinks(2)[of H p None None s p] by simp
  then have "queue (doneCallback H p None None s) p = []"
    using assms by (simp add: delete_key_def)
  from done_empty_stops[OF this] show ?thesis unfolding eq .
qed

section \<open>The drained event and the order of phases\<close>

text \<open>
  Claim C5. In every run, the drained event of a phase has been emitted exactly once if
  the count subject of the phase has completed and not at all otherwise, so never twice,
  whatever is removed or reported again afterwards. It is emitted in the very step in
  which the map of the phase becomes empty; and when the processing of a phase begins on
  an empty map, in that step.
\<close>

theorem drained_exactly_once:
  "drained_count p (trace (run H (init md h0) es)) =
     (if stopped (run H (init md h0) es) p then 1 else 0) \<and>
   (queue (run H (init md h0) es) p \<noteq> [] \<and> queue (step H (run H (init md h0) es) e) p = [] \<longrightarrow>
      drained_count p (trace (run H (init md h0) es)) = 0 \<and>
      drained_count p (trace (step H (run H (init md h0) es) e)) = 1) \<and>
   (queue (run H (init md h0) es) p = [] \<and> ticks (run H (init md h0) es) = ProcessPhase p # ts \<longrightarrow>
      drained_count p (trace (step H (run H (init md h0) es) Tick)) = 1)"
proof -
  let ?s = "run H (init md h0) es"
  have g: "good md ?s" by (rule reach_good)
  have g': "good md (step H ?s x)" for x using g by (rule step_good)
  have one: "drained_count p (trace ?s) = (if stopped ?s p then 1 else 0)"
    using g by (rule good_count)
  have two: "drained_count p (trace ?s) = 0 \<and> drained_count p (trace (step H ?s e)) = 1"
    if ne: "queue ?s p \<noteq> []" and em: "queue (step H ?s e) p = []"
  proof -
    from ne good_stopped_empty[OF g, of p] have "\<not> stopped ?s p" by blast
    with one have "drained_count p (trace ?s) = 0" by simp
    moreover from emptied_step[OF g ne em] good_count[OF g', of p e]
    have "drained_count p (trace (step H ?s e)) = 1" by simp
    ultimately show ?thesis ..
  qed
  have three: "drained_count p (trace (step H ?s Tick)) = 1"
    if em: "queue ?s p = []" and tk: "ticks ?s = ProcessPhase p # ts"
  proof -
    have "stopped (processQueue H p (?s\<lparr>ticks := ts\<rparr>)) p"
      by (rule empty_processQueue_stops) (simp add: em)
    then have "stopped (step H ?s Tick) p" using tk by (simp add: step_def runTask_def)
    with good_count[OF g', of p Tick] show ?thesis by simp
  qed
  from one two three show ?thesis by blast
qed

text \<open>
  Claim C1. In the trace of every run, an invocation of a method of a phase comes after
  the drained event of every earlier phase (in the order frameworkBeforeBoot, before,
  after, frameworkAfterBoot) and after a completion callback of every key registered into
  every earlier phase.
\<close>

theorem phases_in_order:
  "trace (run H (init md h0) es) = xs @ Invoke q k n # ys \<Longrightarrow> pidx p < pidx q \<Longrightarrow>
     Drained p \<in> set xs \<and>
     (\<forall>k' \<in> set (registered md p). \<exists>t. DoneCalled p (Some k') t \<in> set xs)"
proof -
  assume tr: "trace (run H (init md h0) es) = xs @ Invoke q k n # ys" and lt: "pidx p < pidx q"
  let ?s = "run H (init md h0) es"
  have g: "good md ?s" by (rule reach_good)
  have "\<not> fresh md ?s" using tr fresh_fields(4)[of md ?s] by auto
  with g obtain tgt where "inv (registered md) tgt ?s" by (auto simp: good_def)
  from invD(7)[OF this] tr have "start_allowed (registered md) xs (Invoke q k n)"
    unfolding ordered_def by blast
  with lt have "Drained p \<in> set xs \<and> set (registered md p) \<subseteq> done_keys p xs"
    unfolding start_allowed_def by blast
  then show ?thesis by (auto simp: done_keys_def)
qed

lemma two_phase_trace:
  "trace two_phase_run =
     [Log StartBootingLog, ClearTimeoutCall 1, DoneCalled FrameworkBeforeBoot None None,
      Drained FrameworkBeforeBoot, Invoke Before ''A_autoStart'' 2,
      DoneCalled Before (Some ''A_autoStart'') (Some 2), ClearIntervalCall 2, Drained Before]
     @ Invoke After ''D_autoStart'' 3 #
     [DoneCalled After (Some ''D_autoStart'') (Some 3), ClearIntervalCall 3, Drained After]"
  unfolding two_phase_run_def sample_host_def item_of_def by code_simp

theorem phases_in_order_witness:
  "trace (run sample_host (init [item_of Before ''A'', item_of After ''D''] 1)
       [Bootstrap (Token ''app''), TimerFire 1, Tick, Tick, Tick]) =
     [Log StartBootingLog, ClearTimeoutCall 1, DoneCalled FrameworkBeforeBoot None None,
      Drained FrameworkBeforeBoot, Invoke Before ''A_autoStart'' 2,
      DoneCalled Before (Some ''A_autoStart'') (Some 2), ClearIntervalCall 2, Drained Before]
     @ Invoke After ''D_autoStart'' 3 #
     [DoneCalled After (Some ''D_autoStart'') (Some 3), ClearIntervalCall 3, Drained After] \<and>
   pidx Before < pidx After \<and>
   Drained Before \<in> set [Log StartBootingLog, ClearTimeoutCall 1,
      DoneCalled FrameworkBeforeBoot None None, Drained FrameworkBeforeBoot,
      Invoke Before ''A_autoStart'' 2, DoneCalled Before (Some ''A_autoStart'') (Some 2),
      ClearIntervalCall 2, Drained Before]"
proof -
  have tr: "trace (run sample_host (init [item_of Before ''A'', item_of After ''D''] 1)
       [Bootstrap (Token ''app''), TimerFire 1, Tick, Tick, Tick]) =
     [Log StartBootingLog, ClearTimeoutCall 1, DoneCalled FrameworkBeforeBoot None None,
      Drained FrameworkBeforeBoot, Invoke Before ''A_autoStart'' 2,
      DoneCalled Before (Some ''A_autoStart'') (Some 2), ClearIntervalCall 2, Drained Before]
     @ Invoke After ''D_autoStart'' 3 #
     [DoneCalled After (Some ''D_autoStart'') (Some 3), ClearIntervalCall 3, Drained After]"
    using two_phase_trace by (simp only: two_phase_run_def)
  have lt: "pidx Before < pidx After" by simp
  from phases_in_order[OF tr lt] tr lt show ?thesis by blast
qed

lemma inflight_queue:
  "queue (run sample_host (init [item_of Before ''B''] 1)
            [Bootstrap (Token ''app''), TimerFire 1, Tick, Tick]) Before \<noteq> [] \<and>
   queue (step sample_host (run sample_host (init [item_of Before ''B''] 1)
            [Bootstrap (Token ''app''), TimerFire 1, Tick, Tick])
          (ItemDone Before ''B_autoStart'' 2)) Before = []"
  unfolding sample_host_def item_of_def by code_simp

lemma warmed_up_ticks:
  "queue (run sample_host (init [item_of Before ''B''] 1)
            [Bootstrap (Token ''app''), TimerFire 1]) FrameworkBeforeBoot = [] \<and>
   ticks (run sample_host (init [item_of Before ''B''] 1)
            [Bootstrap (Token ''app''), TimerFire 1]) = ProcessPhase FrameworkBeforeBoot # []"
  unfolding sample_host_def item_of_def by code_simp

theorem drained_exactly_once_witness:
  "(queue (run sample_host (init [item_of Before ''B''] 1)
            [Bootstrap (Token ''app''), TimerFire 1, Tick, Tick]) Before \<noteq> [] \<and>
    queue (step sample_host (run sample_host (init [item_of Before ''B''] 1)
            [Bootstrap (Token ''app''), TimerFire 1, Tick, Tick])
          (ItemDone Before ''B_autoStart'' 2)) Before = [] \<and>
    drained_count Before (trace (run sample_host (init [item_of Before ''B''] 1)
            [Bootstrap (Token ''app''), TimerFire 1, Tick, Tick])) = 0 \<and>
    drained_count Before (trace (step sample_host (run sample_host (init [item_of Before ''B''] 1)
            [Bootstrap (Token ''app''), TimerFire 1, Tick, Tick])
          (ItemDone Before ''B_autoStart'' 2))) = 1) \<and>
   (queue (run sample_host (init [item_of Before ''B''] 1)
            [Bootstrap (Token ''app''), TimerFire 1]) FrameworkBeforeBoot = [] \<and>
    ticks (run sample_host (init [item_of Before ''B''] 1)
            [Bootstrap (Token ''app''), TimerFire 1]) = ProcessPhase FrameworkBeforeBoot # [] \<and>
    drained_count FrameworkBeforeBoot (trace (step sample_host
          (run sample_host (init [item_of Before ''B''] 1) [Bootstrap (Token ''app''), TimerFire 1])
          Tick)) = 1)"
  using drained_exactly_once[of Before sample_host "[item_of Before ''B'']" 1
          "[Bootstrap (Token ''app''), TimerFire 1, Tick, Tick]"
          "ItemDone Before ''B_autoStart'' 2" "[]"]
        drained_exactly_once[of FrameworkBeforeBoot sample_host "[item_of Before ''B'']" 1
          "[Bootstrap (Token ''app''), TimerFire 1]" Tick "[]"]
        inflight_queue warmed_up_ticks
  by blast

section \<open>The order of the items of a phase\<close>

lemma started_append [simp]: "started p (tr @ es) = started p tr @ started p es"
  by (simp add: started_def)

lemma completed_append [simp]: "completed p (tr @ es) = completed p tr @ completed p es"
  by (simp add: completed_def)







lemma started_Nil [simp]: "started p [] = []"
  by (simp add: started_def)

lemma completed_Nil [simp]: "completed p [] = []"
  by (simp add: completed_def)

lemma started_Cons [simp]:
  "started p (Invoke q k n # es) = (if q = p then k # started p es else started p es)"
  "started p (DoneCalled q ko t # es) = started p es" "started p (Drained q # es) = started p es"
  by (simp_all add: started_def)

lemma completed_Cons [simp]:
  "completed p (Invoke q k n # es) = completed p es"
  "completed p (DoneCalled q (Some k) t # es) = (if q = p then k # completed p es else completed p es)"
  "completed p (DoneCalled q None t # es) = completed p es"
  "completed p (Drained q # es) = completed p es"
  by (simp_all add: completed_def)

lemma quiet_Cons [simp]:
  "is_quiet e \<Longrightarrow> started p (e # es) = started p es"
  "is_quiet e \<Longrightarrow> completed p (e # es) = completed p es"
proof -
  assume q: "is_quiet e"
  show "started p (e # es) = started p es"
    using q by (cases e) (simp_all add: started_def)
  show "completed p (e # es) = completed p es"
  proof (cases e)
    case (DoneCalled q' ko t)
    with q show ?thesis by (cases ko) (simp_all add: completed_def)
  qed (simp_all add: completed_def)
qed







lemma gate_upd [simp]:
  "gate x (s\<lparr>proc_subs := a\<rparr>) = gate x s" "gate x (s\<lparr>ticks := b\<rparr>) = gate x s"
  "gate x (s\<lparr>trace := c\<rparr>) = gate x s" "gate x (s\<lparr>queue := d\<rparr>) = gate x s"
  "gate x (s\<lparr>tl_buf := e\<rparr>) = gate x s" "gate x (s\<lparr>timers := f\<rparr>) = gate x s"
  "gate x (s\<lparr>nextTimerId := g\<rparr>) = gate x s" "gate x (s\<lparr>fin_subs := h\<rparr>) = gate x s"
  "gate x (s\<lparr>fin_stopped := i\<rparr>) = gate x s" "gate x (s\<lparr>hooks := j\<rparr>) = gate x s"
  by (simp_all add: gate_def split: phase.splits)






lemma gate_clearIf [simp]: "gate x (clearIf H i s) = gate x s"
  by (simp add: clearIf_def clearInterval_def split: option.splits)

lemma gate_setTimeout [simp]: "gate x (setTimeout w s) = gate x s"
  by (simp add: setTimeout_def)









lemma live_Nil [simp]: "live p [] = {}"
  by (simp add: live_def)













end
